theory Spec2Isabelle
  imports Main "HOL-Library.Word"
begin

unbundle bit_operations_syntax

section \<open>DNS tunnel: shallow embedding of the query pipeline\<close>

text \<open>
  The two tiers of the forwarder are embedded function by function. Go pointers to
  mutable objects (DNS messages, resolution results) are addresses into an explicit
  store, so that copying and in-place mutation stay visible. Clock readings, the
  iteration order of Go maps, the random source and the outcome of network calls are
  inputs of the functions that consult them.
\<close>

subsection \<open>Time\<close>

text \<open>
  A \<open>time.Duration\<close> is a signed count of nanoseconds; an instant is the number of
  nanoseconds since a fixed origin. No operation below leaves the 64-bit range for
  the durations a configuration can hold, so both are plain integers.
\<close>

type_synonym Duration = int
type_synonym Time = int

definition Second :: Duration where
  "Second = 1000000000"

text \<open>
  \<open>uint32(d.Seconds())\<close>: the duration in seconds as a 64-bit float, truncated
  towards zero to an unsigned 32-bit value. Below \<open>2 ^ 24\<close> seconds the float keeps
  the fraction apart from the next whole second, so the truncation is the number of
  whole seconds; the theorems below stay in that range. The conversion of a value
  outside the 32-bit range is platform dependent in Go and wraps here.
\<close>

definition uint32_Seconds :: "Duration \<Rightarrow> 32 word" where
  "uint32_Seconds d = word_of_int (sgn d * (\<bar>d\<bar> div Second))"

subsection \<open>DNS messages (the fields of the library types that the code reads)\<close>

record dns_Question =
  Name :: string
  Qtype :: "16 word"
  Qclass :: "16 word"

record RR_Header =
  Hdr_Name :: string
  Rrtype :: "16 word"
  Class :: "16 word"
  Ttl :: "32 word"

datatype RR =
    RR_A RR_Header "8 word list option"
  | RR_AAAA RR_Header "8 word list option"
  | RR_CNAME RR_Header string
  | RR_TXT RR_Header "string list"
  | RR_MX RR_Header "16 word" string
  | RR_NS RR_Header string

fun Header :: "RR \<Rightarrow> RR_Header" where
  "Header (RR_A h _) = h"
| "Header (RR_AAAA h _) = h"
| "Header (RR_CNAME h _) = h"
| "Header (RR_TXT h _) = h"
| "Header (RR_MX h _ _) = h"
| "Header (RR_NS h _) = h"

fun set_Ttl :: "32 word \<Rightarrow> RR \<Rightarrow> RR" where
  "set_Ttl t (RR_A h a) = RR_A (h\<lparr>Ttl := t\<rparr>) a"
| "set_Ttl t (RR_AAAA h a) = RR_AAAA (h\<lparr>Ttl := t\<rparr>) a"
| "set_Ttl t (RR_CNAME h s) = RR_CNAME (h\<lparr>Ttl := t\<rparr>) s"
| "set_Ttl t (RR_TXT h s) = RR_TXT (h\<lparr>Ttl := t\<rparr>) s"
| "set_Ttl t (RR_MX h p s) = RR_MX (h\<lparr>Ttl := t\<rparr>) p s"
| "set_Ttl t (RR_NS h s) = RR_NS (h\<lparr>Ttl := t\<rparr>) s"

record dns_Msg =
  Id :: "16 word"
  Response :: bool
  Authoritative :: bool
  RecursionAvailable :: bool
  Rcode :: int
  Question :: "dns_Question list"
  Answer :: "RR list"

subsection \<open>The store of DNS messages\<close>

text \<open>
  A \<open>*dns.Msg\<close> is an address; the store is the list of allocated messages and an
  allocation appends. \<open>Msg.Copy\<close> is a deep copy: a fresh cell with the same contents.
\<close>

type_synonym ptr = nat
type_synonym heap = "dns_Msg list"

definition Copy :: "heap \<Rightarrow> ptr \<Rightarrow> ptr \<times> heap" where
  "Copy h p = (length h, h @ [h ! p])"

subsection \<open>Local cache (package cache)\<close>

record Entry =
  Msg :: ptr
  ExpiresAt :: Time
  CreatedAt :: Time

record Cache =
  items :: "string \<rightharpoonup> Entry"
  maxItems :: int
  defaultTTL :: Duration
  minTTL :: Duration
  maxTTL :: Duration

definition New :: "int \<Rightarrow> Duration \<Rightarrow> Duration \<Rightarrow> Duration \<Rightarrow> Cache" where
  "New maxItems' defaultTTL' minTTL' maxTTL' =
     \<lparr>items = Map.empty, maxItems = maxItems', defaultTTL = defaultTTL',
      minTTL = minTTL', maxTTL = maxTTL'\<rparr>"

definition Len :: "Cache \<Rightarrow> int" where
  "Len c = int (card (dom (items c)))"

definition Clear :: "Cache \<Rightarrow> Cache" where
  "Clear c = c\<lparr>items := Map.empty\<rparr>"

text \<open>
  Go leaves the order of \<open>range\<close> over a map open. The order is an input: a list that
  enumerates the keys of the map once each.
\<close>

definition iteration_order :: "('k \<rightharpoonup> 'v) \<Rightarrow> 'k list \<Rightarrow> bool" where
  "iteration_order m ks \<longleftrightarrow> distinct ks \<and> set ks = dom m"

text \<open>
  The loop of \<open>evictOldest\<close>; the pair is \<open>(oldestKey, oldestTime)\<close>, and the empty
  string is the code's mark for "no key chosen yet".
\<close>

fun evict_scan :: "(string \<rightharpoonup> Entry) \<Rightarrow> string list \<Rightarrow> string \<times> Time \<Rightarrow> string \<times> Time" where
  "evict_scan m [] acc = acc"
| "evict_scan m (key # ks) (oldestKey, oldestTime) =
     (case m key of
        None \<Rightarrow> evict_scan m ks (oldestKey, oldestTime)
      | Some entry \<Rightarrow>
          if oldestKey = [] \<or> ExpiresAt entry < oldestTime
          then evict_scan m ks (key, ExpiresAt entry)
          else evict_scan m ks (oldestKey, oldestTime))"

definition evictOldest :: "Cache \<Rightarrow> string list \<Rightarrow> Cache" where
  "evictOldest c order =
     (let (oldestKey, oldestTime) = evict_scan (items c) order ([], 0)
      in if oldestKey \<noteq> [] then c\<lparr>items := (items c)(oldestKey := None)\<rparr> else c)"

text \<open>The TTL rewrite applied to each answer of the copy returned by \<open>Get\<close>.\<close>

definition adjust_ttl :: "32 word \<Rightarrow> RR \<Rightarrow> RR" where
  "adjust_ttl elapsed rr =
     (if Ttl (Header rr) > elapsed then set_Ttl (Ttl (Header rr) - elapsed) rr
      else set_Ttl 1 rr)"

text \<open>
  \<open>Get\<close> reads the clock twice: \<open>now1\<close> for the expiry test, \<open>now2\<close> in \<open>time.Since\<close>.
  The result is the cache, the store, and the returned pair (pointer, hit).
\<close>

definition Get :: "Cache \<Rightarrow> heap \<Rightarrow> string \<Rightarrow> Time \<Rightarrow> Time \<Rightarrow> Cache \<times> heap \<times> ptr option \<times> bool" where
  "Get c h key now1 now2 =
     (case items c key of
        None \<Rightarrow> (c, h, None, False)
      | Some entry \<Rightarrow>
          if now1 > ExpiresAt entry
          then (c\<lparr>items := (items c)(key := None)\<rparr>, h, None, False)
          else
            let (msg, h1) = Copy h (Msg entry);
                elapsed = uint32_Seconds (now2 - CreatedAt entry);
                h2 = h1[msg := (h1 ! msg)\<lparr>Answer := map (adjust_ttl elapsed) (Answer (h1 ! msg))\<rparr>]
            in (c, h2, Some msg, True))"

text \<open>The minimum answer TTL, as the loop of \<open>Set\<close> computes it from the first answer on.\<close>

definition minAnswerTTL :: "RR list \<Rightarrow> 32 word" where
  "minAnswerTTL answers =
     fold (\<lambda>rr m. if Ttl (Header rr) < m then Ttl (Header rr) else m)
          answers (Ttl (Header (hd answers)))"

text \<open>
  \<open>Set\<close> takes the iteration order used should it evict, and its two clock readings:
  \<open>now1\<close> for \<open>ExpiresAt\<close>, \<open>now2\<close> for \<open>CreatedAt\<close>. A nil message is \<open>None\<close>.
\<close>

definition Set :: "Cache \<Rightarrow> heap \<Rightarrow> string list \<Rightarrow> string \<Rightarrow> ptr option \<Rightarrow> Time \<Rightarrow> Time \<Rightarrow> Cache \<times> heap" where
  "Set c h order key msg now1 now2 =
     (case msg of
        None \<Rightarrow> (c, h)
      | Some m \<Rightarrow>
          if length (Question (h ! m)) = 0 then (c, h)
          else
            let ttl0 = (if length (Answer (h ! m)) > 0
                        then uint (minAnswerTTL (Answer (h ! m))) * Second
                        else defaultTTL c);
                ttl1 = (if ttl0 < minTTL c then minTTL c else ttl0);
                ttl2 = (if ttl1 > maxTTL c then maxTTL c else ttl1);
                c1 = (if Len c \<ge> maxItems c then evictOldest c order else c);
                (p, h1) = Copy h m
            in (c1\<lparr>items := (items c1)(key \<mapsto> \<lparr>Msg = p, ExpiresAt = now1 + ttl2, CreatedAt = now2\<rparr>)\<rparr>, h1))"

subsection \<open>Cache keys\<close>

text \<open>
  \<open>dns.TypeToString\<close> is the library's table from type codes to mnemonics; it is a
  parameter of \<open>Key\<close>. Indexing a Go map at an absent key gives the empty string.
\<close>

definition map_index :: "('k \<rightharpoonup> string) \<Rightarrow> 'k \<Rightarrow> string" where
  "map_index m k = (case m k of None \<Rightarrow> [] | Some s \<Rightarrow> s)"

definition Key :: "(16 word \<rightharpoonup> string) \<Rightarrow> dns_Question \<Rightarrow> string" where
  "Key TypeToString q = Name q @ '':'' @ map_index TypeToString (Qtype q)"

text \<open>The entries of the library's table for the six record types the forwarder serves.\<close>

definition TypeToString_served :: "16 word \<rightharpoonup> string" where
  "TypeToString_served =
     [1 \<mapsto> ''A'', 2 \<mapsto> ''NS'', 5 \<mapsto> ''CNAME'', 15 \<mapsto> ''MX'', 16 \<mapsto> ''TXT'', 28 \<mapsto> ''AAAA'']"

definition HasSuffix :: "string \<Rightarrow> string \<Rightarrow> bool" where
  "HasSuffix s suffix \<longleftrightarrow>
     length s \<ge> length suffix \<and> drop (length s - length suffix) s = suffix"

definition TrimSuffix :: "string \<Rightarrow> string \<Rightarrow> string" where
  "TrimSuffix s suffix = (if HasSuffix s suffix then take (length s - length suffix) s else s)"

text \<open>The first two statements of the remote \<open>Resolver.Resolve\<close>: the remote cache key.\<close>

definition cacheKey :: "string \<Rightarrow> string \<Rightarrow> string" where
  "cacheKey domain recordType = TrimSuffix domain ''.'' @ '':'' @ recordType"

subsection \<open>Remote cache (package resolver)\<close>

text \<open>
  The RPC record and result. The local and the remote tier declare the same record
  shape, carried as JSON between them.
\<close>

record DNSRecord =
  Record_Name :: string
  Type :: string
  Value :: string
  TTL :: "32 word"

record ResolveResult =
  Domain :: string
  Records :: "DNSRecord list"
  Cached :: bool

type_synonym result_heap = "ResolveResult list"

datatype panic = NilDereference | SliceBoundsOutOfRange | IndexOutOfRange

record cacheEntry =
  result :: "ptr option"
  expiresAt :: Time

record resolver_Cache =
  resolver_items :: "string \<rightharpoonup> cacheEntry"
  resolver_maxItems :: int
  ttl :: Duration

definition NewCache :: "int \<Rightarrow> Duration \<Rightarrow> resolver_Cache" where
  "NewCache maxItems' ttl' = \<lparr>resolver_items = Map.empty, resolver_maxItems = maxItems', ttl = ttl'\<rparr>"

text \<open>
  The remote \<open>Get\<close> holds the read lock throughout and reads the clock once. A hit
  copies the stored struct and its record slice into a fresh cell.
\<close>

definition resolver_Get ::
  "resolver_Cache \<Rightarrow> result_heap \<Rightarrow> string \<Rightarrow> Time \<Rightarrow> panic + (resolver_Cache \<times> result_heap \<times> ptr option \<times> bool)" where
  "resolver_Get c h key now =
     (case resolver_items c key of
        None \<Rightarrow> Inr (c, h, None, False)
      | Some entry \<Rightarrow>
          if now > expiresAt entry then Inr (c, h, None, False)
          else (case result entry of
                  None \<Rightarrow> Inl NilDereference
                | Some r \<Rightarrow>
                    let copied = h ! r;
                        records = Records (h ! r);
                        copied = copied\<lparr>Records := records\<rparr>
                    in Inr (c, h @ [copied], Some (length h), True)))"

definition resolver_Len :: "resolver_Cache \<Rightarrow> int" where
  "resolver_Len c = int (card (dom (resolver_items c)))"

fun resolver_evict_scan ::
  "(string \<rightharpoonup> cacheEntry) \<Rightarrow> string list \<Rightarrow> string \<times> Time \<Rightarrow> string \<times> Time" where
  "resolver_evict_scan m [] acc = acc"
| "resolver_evict_scan m (key # ks) (oldestKey, oldestTime) =
     (case m key of
        None \<Rightarrow> resolver_evict_scan m ks (oldestKey, oldestTime)
      | Some entry \<Rightarrow>
          if oldestKey = [] \<or> expiresAt entry < oldestTime
          then resolver_evict_scan m ks (key, expiresAt entry)
          else resolver_evict_scan m ks (oldestKey, oldestTime))"

definition resolver_evictOldest :: "resolver_Cache \<Rightarrow> string list \<Rightarrow> resolver_Cache" where
  "resolver_evictOldest c order =
     (let (oldestKey, oldestTime) = resolver_evict_scan (resolver_items c) order ([], 0)
      in if oldestKey \<noteq> [] then c\<lparr>resolver_items := (resolver_items c)(oldestKey := None)\<rparr> else c)"

text \<open>The remote \<open>Set\<close> stores the caller's pointer itself, without a copy.\<close>

definition resolver_Set ::
  "resolver_Cache \<Rightarrow> string list \<Rightarrow> string \<Rightarrow> ptr option \<Rightarrow> Time \<Rightarrow> resolver_Cache" where
  "resolver_Set c order key result' now =
     (let c1 = (if resolver_Len c \<ge> resolver_maxItems c then resolver_evictOldest c order else c)
      in c1\<lparr>resolver_items := (resolver_items c1)(key \<mapsto> \<lparr>result = result', expiresAt = now + ttl c\<rparr>)\<rparr>)"

subsection \<open>Envelope codec (package crypto)\<close>

type_synonym bytes = "8 word list"

text \<open>\<open>encoding/hex\<close>: two hex digits per byte, either letter case.\<close>

definition fromHexChar :: "char \<Rightarrow> 8 word option" where
  "fromHexChar c =
     (let n = (of_char c :: nat) in
      if 48 \<le> n \<and> n \<le> 57 then Some (of_nat (n - 48))
      else if 97 \<le> n \<and> n \<le> 102 then Some (of_nat (n - 97 + 10))
      else if 65 \<le> n \<and> n \<le> 70 then Some (of_nat (n - 65 + 10))
      else None)"

fun hex_DecodeString :: "string \<Rightarrow> bytes option" where
  "hex_DecodeString [] = Some []"
| "hex_DecodeString [a] = None"
| "hex_DecodeString (a # b # rest) =
     (case (fromHexChar a, fromHexChar b) of
        (Some x, Some y) \<Rightarrow>
          (case hex_DecodeString rest of
             None \<Rightarrow> None
           | Some bs \<Rightarrow> Some ((push_bit 4 x OR y) # bs))
      | _ \<Rightarrow> None)"

text \<open>\<open>encoding/base64\<close>, \<open>StdEncoding\<close>: the RFC 4648 alphabet with \<open>=\<close> padding.\<close>

definition encodeStd :: string where
  "encodeStd = ''ABCDEFGHIJKLMNOPQRSTUVWXYZabcdefghijklmnopqrstuvwxyz0123456789+/''"

definition enc64 :: "8 word \<Rightarrow> char" where
  "enc64 v = encodeStd ! unat (v AND 63)"

definition decodeMap :: "char \<rightharpoonup> 8 word" where
  "decodeMap = map_of (zip encodeStd (map of_nat [0..<64]))"

fun EncodeToString :: "bytes \<Rightarrow> string" where
  "EncodeToString [] = []"
| "EncodeToString [a] =
     [enc64 (drop_bit 2 a), enc64 (push_bit 4 (a AND 3)), CHR ''='', CHR ''='']"
| "EncodeToString [a, b] =
     [enc64 (drop_bit 2 a), enc64 (push_bit 4 (a AND 3) OR drop_bit 4 b),
      enc64 (push_bit 2 (b AND 15)), CHR ''='']"
| "EncodeToString (a # b # c # rest) =
     enc64 (drop_bit 2 a) # enc64 (push_bit 4 (a AND 3) OR drop_bit 4 b) #
     enc64 (push_bit 2 (b AND 15) OR drop_bit 6 c) # enc64 (c AND 63) #
     EncodeToString rest"

text \<open>Decoding of the quantums, after line breaks have been dropped.\<close>

fun decode_quantums :: "string \<Rightarrow> bytes option" where
  "decode_quantums [] = Some []"
| "decode_quantums (a # b # c # d # rest) =
     (case (decodeMap a, decodeMap b) of
        (Some x, Some y) \<Rightarrow>
          if c = CHR ''='' \<and> d = CHR ''=''
          then (if rest = [] then Some [push_bit 2 x OR drop_bit 4 y] else None)
          else (case decodeMap c of
                  None \<Rightarrow> None
                | Some z \<Rightarrow>
                    if d = CHR ''=''
                    then (if rest = []
                          then Some [push_bit 2 x OR drop_bit 4 y, push_bit 4 y OR drop_bit 2 z]
                          else None)
                    else (case decodeMap d of
                            None \<Rightarrow> None
                          | Some w \<Rightarrow>
                              (case decode_quantums rest of
                                 None \<Rightarrow> None
                               | Some bs \<Rightarrow>
                                   Some ((push_bit 2 x OR drop_bit 4 y) #
                                         (push_bit 4 y OR drop_bit 2 z) #
                                         (push_bit 6 z OR w) # bs))))
      | _ \<Rightarrow> None)"
| "decode_quantums _ = None"

definition DecodeString :: "string \<Rightarrow> bytes option" where
  "DecodeString s = decode_quantums (filter (\<lambda>c. c \<noteq> CHR 0x0D \<and> c \<noteq> CHR 0x0A) s)"

text \<open>
  \<open>cipher.AEAD\<close>, the interface behind \<open>Cipher.gcm\<close>. \<open>Seal dst nonce plaintext ad\<close>
  appends to \<open>dst\<close>; \<open>Open dst nonce ciphertext ad\<close> fails on a wrong tag. AES and
  GCM themselves are the standard library's; the constructor is a parameter of
  \<open>NewCipher\<close>.
\<close>

record AEAD =
  NonceSize :: nat
  Overhead :: nat
  Seal :: "bytes \<Rightarrow> bytes \<Rightarrow> bytes \<Rightarrow> bytes \<Rightarrow> bytes"
  Open :: "bytes \<Rightarrow> bytes \<Rightarrow> bytes \<Rightarrow> bytes \<Rightarrow> bytes option"

text \<open>
  What the interface promises of every implementation: sealing appends the plaintext's
  length plus the overhead to \<open>dst\<close>, and opening what was sealed under the same nonce
  and additional data gives the plaintext back.
\<close>

definition AEAD_contract :: "AEAD \<Rightarrow> bool" where
  "AEAD_contract g \<longleftrightarrow>
     (\<forall>dst nonce plaintext ad. length nonce = NonceSize g \<longrightarrow>
        (\<exists>sealed. Seal g dst nonce plaintext ad = dst @ sealed \<and>
                  length sealed = length plaintext + Overhead g \<and>
                  Open g [] nonce sealed ad = Some plaintext))"

record Cipher =
  gcm :: AEAD

datatype crypto_error =
    InvalidHexKey | KeyNot32Bytes | CreateAES_GCM | GenerateNonce
  | DecodeBase64 | CiphertextTooShort | FailedToDecrypt

definition NewCipher :: "(bytes \<Rightarrow> AEAD option) \<Rightarrow> string \<Rightarrow> crypto_error + Cipher" where
  "NewCipher aes_NewGCM hexKey =
     (case hex_DecodeString hexKey of
        None \<Rightarrow> Inl InvalidHexKey
      | Some key \<Rightarrow>
          if length key \<noteq> 32 then Inl KeyNot32Bytes
          else (case aes_NewGCM key of
                  None \<Rightarrow> Inl CreateAES_GCM
                | Some g \<Rightarrow> Inr \<lparr>gcm = g\<rparr>))"

text \<open>
  \<open>io.ReadFull(rand.Reader, buf)\<close>: the random source is the list of bytes it can
  still deliver; the read fills the whole buffer or fails.
\<close>

definition ReadFull :: "bytes \<Rightarrow> nat \<Rightarrow> bytes option" where
  "ReadFull reader n = (if length reader < n then None else Some (take n reader))"

definition Encrypt :: "Cipher \<Rightarrow> bytes \<Rightarrow> bytes \<Rightarrow> crypto_error + string" where
  "Encrypt c rand_Reader plaintext =
     (case ReadFull rand_Reader (NonceSize (gcm c)) of
        None \<Rightarrow> Inl GenerateNonce
      | Some nonce \<Rightarrow>
          let ciphertext = Seal (gcm c) nonce nonce plaintext []
          in Inr (EncodeToString ciphertext))"

definition Decrypt :: "Cipher \<Rightarrow> string \<Rightarrow> crypto_error + bytes" where
  "Decrypt c encoded =
     (case DecodeString encoded of
        None \<Rightarrow> Inl DecodeBase64
      | Some ciphertext \<Rightarrow>
          let nonceSize = NonceSize (gcm c) in
          if length ciphertext < nonceSize then Inl CiphertextTooShort
          else
            let nonce = take nonceSize ciphertext;
                ciphertext' = drop nonceSize ciphertext
            in (case Open (gcm c) [] nonce ciphertext' [] of
                  None \<Rightarrow> Inl FailedToDecrypt
                | Some plaintext \<Rightarrow> Inr plaintext))"

text \<open>
  An implementation of the interface small enough to evaluate: the ciphertext is the
  plaintext with each byte offset by the nonce's first byte, and the tag is sixteen
  copies of the nonce's first byte. It stands in for AES-GCM where a concrete cipher
  is needed to run the codec.
\<close>

definition toy_AEAD :: AEAD where
  "toy_AEAD =
     \<lparr>NonceSize = 12, Overhead = 16,
      Seal = (\<lambda>dst nonce plaintext ad.
                dst @ map (\<lambda>b. b + hd nonce) plaintext @ replicate 16 (hd nonce)),
      Open = (\<lambda>dst nonce ciphertext ad.
                if length ciphertext < 16 then None
                else if drop (length ciphertext - 16) ciphertext = replicate 16 (hd nonce)
                then Some (dst @ map (\<lambda>b. b - hd nonce) (take (length ciphertext - 16) ciphertext))
                else None)\<rparr>"

subsection \<open>RPC client (package client)\<close>

record Endpoint =
  URL :: string
  APIKey :: string
  Weight :: int
  Healthy :: bool

text \<open>
  The pool is the list of endpoint objects in configured order; a \<open>*Endpoint\<close> is the
  index of its slot, and nil is \<open>None\<close>. \<open>currentIndex\<close> is the atomic \<open>uint32\<close>.
\<close>

record Client =
  endpoints :: "Endpoint list"
  cipher :: "Cipher option"
  timeout :: Duration
  maxRetries :: int
  retryDelay :: Duration
  loadBalancing :: string
  currentIndex :: "32 word"

text \<open>
  The loop of \<open>selectRoundRobin\<close>, by the number of iterations left. Each iteration
  performs \<open>currentIndex.Add(1) - 1\<close>: it reads the counter and leaves it one higher.
  \<open>int\<close> is 64 bits wide, so the conversion of the \<open>uint32\<close> is its unsigned value.
\<close>

fun roundRobin_loop :: "Endpoint list \<Rightarrow> nat \<Rightarrow> 32 word \<Rightarrow> ptr option \<times> 32 word" where
  "roundRobin_loop eps 0 counter = (if length eps > 0 then Some 0 else None, counter)"
| "roundRobin_loop eps (Suc left) counter =
     (let idx = unat ((counter + 1) - 1) mod length eps in
      if Healthy (eps ! idx) then (Some idx, counter + 1)
      else roundRobin_loop eps left (counter + 1))"

definition selectRoundRobin :: "Client \<Rightarrow> ptr option \<times> Client" where
  "selectRoundRobin c =
     (let (ep, counter) = roundRobin_loop (endpoints c) (length (endpoints c)) (currentIndex c)
      in (ep, c\<lparr>currentIndex := counter\<rparr>))"

fun failover_loop :: "Endpoint list \<Rightarrow> nat \<Rightarrow> ptr option" where
  "failover_loop [] i = None"
| "failover_loop (ep # eps) i = (if Healthy ep then Some i else failover_loop eps (Suc i))"

definition selectFailover :: "Client \<Rightarrow> ptr option \<times> Client" where
  "selectFailover c =
     (case failover_loop (endpoints c) 0 of
        Some i \<Rightarrow> (Some i, c)
      | None \<Rightarrow> (if length (endpoints c) > 0 then Some 0 else None, c))"

definition selectEndpoint :: "Client \<Rightarrow> ptr option \<times> Client" where
  "selectEndpoint c =
     (if loadBalancing c = ''round_robin'' then selectRoundRobin c
      else if loadBalancing c = ''failover'' then selectFailover c
      else selectRoundRobin c)"

datatype 'e client_error =
    EncryptionFailed crypto_error
  | NoHealthyEndpoints
  | ContextError
  | AllAttemptsFailed "'e option"

text \<open>
  The retry loop of \<open>Resolve\<close>. The network is an input: \<open>doRequest attempt ep body\<close>
  is the outcome of the POST of that attempt, and \<open>ctx_Done attempt\<close> tells whether the
  caller's context ends during the wait that follows it.
\<close>

function Resolve_loop ::
  "(nat \<Rightarrow> Endpoint \<Rightarrow> bytes \<Rightarrow> 'e + 'r) \<Rightarrow> (nat \<Rightarrow> bool) \<Rightarrow> bytes \<Rightarrow> int \<Rightarrow>
   Client \<Rightarrow> int \<Rightarrow> 'e option \<Rightarrow> ('e client_error + 'r) \<times> Client" where
  "Resolve_loop doRequest ctx_Done body retries c attempt lastErr =
     (if attempt < retries then
        (case selectEndpoint c of
           (None, c1) \<Rightarrow> (Inl NoHealthyEndpoints, c1)
         | (Some endpoint, c1) \<Rightarrow>
             (case doRequest (nat attempt) (endpoints c1 ! endpoint) body of
                Inr resp \<Rightarrow> (Inr resp, c1)
              | Inl err \<Rightarrow>
                  let c2 = c1\<lparr>endpoints := (endpoints c1)[endpoint := (endpoints c1 ! endpoint)\<lparr>Healthy := False\<rparr>]\<rparr>
                  in if attempt < retries - 1 \<and> ctx_Done (nat attempt) then (Inl ContextError, c2)
                     else Resolve_loop doRequest ctx_Done body retries c2 (attempt + 1) (Some err)))
      else (Inl (AllAttemptsFailed lastErr), c))"
  by pat_completeness auto
termination
  by (relation "measure (\<lambda>(doRequest, ctx_Done, body, retries, c, attempt, lastErr). nat (retries - attempt))") auto

declare Resolve_loop.simps [simp del]

text \<open>
  \<open>Resolve\<close>: \<open>Marshal_request\<close> and \<open>Marshal_encrypted\<close> are \<open>json.Marshal\<close> on the
  request map and on the \<open>EncryptedRequest\<close>.
\<close>

definition Resolve ::
  "(string \<Rightarrow> string \<Rightarrow> bytes) \<Rightarrow> (string \<Rightarrow> bytes) \<Rightarrow> bytes \<Rightarrow>
   (nat \<Rightarrow> Endpoint \<Rightarrow> bytes \<Rightarrow> 'e + 'r) \<Rightarrow> (nat \<Rightarrow> bool) \<Rightarrow>
   Client \<Rightarrow> string \<Rightarrow> string \<Rightarrow> ('e client_error + 'r) \<times> Client" where
  "Resolve Marshal_request Marshal_encrypted rand_Reader doRequest ctx_Done c domain recordType =
     (case (case cipher c of
              Some ci \<Rightarrow>
                (case Encrypt ci rand_Reader (Marshal_request domain recordType) of
                   Inl err \<Rightarrow> Inl (EncryptionFailed err)
                 | Inr encrypted \<Rightarrow> Inr (Marshal_encrypted encrypted))
            | None \<Rightarrow> Inr (Marshal_request domain recordType)) of
        Inl err \<Rightarrow> (Inl err, c)
      | Inr body \<Rightarrow> Resolve_loop doRequest ctx_Done body (maxRetries c) c 0 None)"

text \<open>
  The health probe. \<open>health_URL\<close> is the slice expression of \<open>checkEndpoint\<close>; a slice
  bound below zero panics. \<open>NewRequest\<close> tells whether the request could be built,
  \<open>Do\<close> gives the status code of the GET or \<open>None\<close> on a transport error.
\<close>

definition health_URL :: "string \<Rightarrow> panic + string" where
  "health_URL url =
     (if int (length url) - int (length ''/api/v1/resolve'') < 0 then Inl SliceBoundsOutOfRange
      else Inr (take (length url - length ''/api/v1/resolve'') url @ ''/health''))"

definition checkEndpoint :: "(string \<Rightarrow> bool) \<Rightarrow> (string \<Rightarrow> int option) \<Rightarrow> Endpoint \<Rightarrow> panic + Endpoint" where
  "checkEndpoint NewRequest Do ep =
     (case health_URL (URL ep) of
        Inl p \<Rightarrow> Inl p
      | Inr healthURL \<Rightarrow>
          if \<not> NewRequest healthURL then Inr (ep\<lparr>Healthy := False\<rparr>)
          else (case Do healthURL of
                  None \<Rightarrow> Inr (ep\<lparr>Healthy := False\<rparr>)
                | Some StatusCode \<Rightarrow> Inr (ep\<lparr>Healthy := (StatusCode = 200)\<rparr>)))"

subsection \<open>Upstream resolver (package resolver)\<close>

text \<open>Decimal rendering of an unsigned number, the \<open>%d\<close> of \<open>fmt.Sprintf\<close>.\<close>

fun decimal :: "nat \<Rightarrow> string" where
  "decimal n =
     (if n < 10 then [''0123456789'' ! n]
      else decimal (n div 10) @ [''0123456789'' ! (n mod 10)])"

declare decimal.simps [simp del]

record net_MX =
  Host :: string
  Pref :: "16 word"

text \<open>
  The lookups of \<open>net.Resolver\<close> against one upstream, each giving an error text or its
  answer; addresses come already rendered by \<open>ip.String()\<close>.
\<close>

record net_Resolver =
  LookupIP :: "string \<Rightarrow> string \<Rightarrow> string + string list"
  LookupCNAME :: "string \<Rightarrow> string + string"
  LookupMX :: "string \<Rightarrow> string + net_MX list"
  LookupTXT :: "string \<Rightarrow> string + string list"
  LookupNS :: "string \<Rightarrow> string + string list"

definition resolveWithUpstream :: "net_Resolver \<Rightarrow> string \<Rightarrow> string \<Rightarrow> string + ResolveResult" where
  "resolveWithUpstream resolver domain recordType =
     (let mk = (\<lambda>ty vs. \<lparr>Domain = domain,
                         Records = map (\<lambda>v. \<lparr>Record_Name = domain, Type = ty, Value = v, TTL = 300\<rparr>) vs,
                         Cached = False\<rparr>)
      in
      if recordType = ''A'' then
        (case LookupIP resolver ''ip4'' domain of Inl err \<Rightarrow> Inl err | Inr ips \<Rightarrow> Inr (mk ''A'' ips))
      else if recordType = ''AAAA'' then
        (case LookupIP resolver ''ip6'' domain of Inl err \<Rightarrow> Inl err | Inr ips \<Rightarrow> Inr (mk ''AAAA'' ips))
      else if recordType = ''CNAME'' then
        (case LookupCNAME resolver domain of Inl err \<Rightarrow> Inl err | Inr cname \<Rightarrow> Inr (mk ''CNAME'' [cname]))
      else if recordType = ''MX'' then
        (case LookupMX resolver domain of
           Inl err \<Rightarrow> Inl err
         | Inr mxRecords \<Rightarrow>
             Inr (mk ''MX'' (map (\<lambda>mx. decimal (unat (Pref mx)) @ '' '' @ Host mx) mxRecords)))
      else if recordType = ''TXT'' then
        (case LookupTXT resolver domain of Inl err \<Rightarrow> Inl err | Inr txtRecords \<Rightarrow> Inr (mk ''TXT'' txtRecords))
      else if recordType = ''NS'' then
        (case LookupNS resolver domain of Inl err \<Rightarrow> Inl err | Inr nsRecords \<Rightarrow> Inr (mk ''NS'' nsRecords))
      else Inl (''unsupported record type: '' @ recordType))"

subsection \<open>Local record builder (package server)\<close>

text \<open>
  \<open>dns.Fqdn\<close> of the DNS library: the name, with the root dot appended when it does not
  end in one. (The library also treats a final dot behind a backslash as escaped;
  no name below has a backslash.)
\<close>

definition Fqdn :: "string \<Rightarrow> string" where
  "Fqdn s = (if s \<noteq> [] \<and> last s = CHR ''.'' then s else s @ ''.'')"

text \<open>
  \<open>createRR\<close>. \<open>ParseIP\<close>, \<open>To4\<close> and \<open>To16\<close> are the \<open>net\<close> package's; the two
  conversions give nil (\<open>None\<close>) for an address of the other family.
\<close>

definition createRR ::
  "(string \<Rightarrow> bytes option) \<Rightarrow> (bytes \<Rightarrow> bytes option) \<Rightarrow> (bytes \<Rightarrow> bytes option) \<Rightarrow>
   DNSRecord \<Rightarrow> string \<Rightarrow> string + RR" where
  "createRR ParseIP To4 To16 rec name =
     (let ttl = (if TTL rec = 0 then 300 else TTL rec);
          Hdr = (\<lambda>ty. \<lparr>Hdr_Name = name, Rrtype = ty, Class = 1, Ttl = ttl\<rparr>)
      in
      if Type rec = ''A'' then
        (case ParseIP (Value rec) of
           None \<Rightarrow> Inl (''invalid IP: '' @ Value rec)
         | Some ip \<Rightarrow> Inr (RR_A (Hdr 1) (To4 ip)))
      else if Type rec = ''AAAA'' then
        (case ParseIP (Value rec) of
           None \<Rightarrow> Inl (''invalid IPv6: '' @ Value rec)
         | Some ip \<Rightarrow> Inr (RR_AAAA (Hdr 28) (To16 ip)))
      else if Type rec = ''CNAME'' then Inr (RR_CNAME (Hdr 5) (Fqdn (Value rec)))
      else if Type rec = ''TXT'' then Inr (RR_TXT (Hdr 16) [Value rec])
      else if Type rec = ''MX'' then Inr (RR_MX (Hdr 15) 10 (Fqdn (Value rec)))
      else if Type rec = ''NS'' then Inr (RR_NS (Hdr 2) (Fqdn (Value rec)))
      else Inl (''unsupported record type: '' @ Type rec))"

subsection \<open>Sample data\<close>

text \<open>A cached answer with a long-lived and a short-lived record, stored at time 0.\<close>

definition demo_msg :: dns_Msg where
  "demo_msg =
     \<lparr>Id = 7, Response = True, Authoritative = False, RecursionAvailable = True, Rcode = 0,
      Question = [\<lparr>Name = ''ttl.com.'', Qtype = 1, Qclass = 1\<rparr>],
      Answer = [RR_A \<lparr>Hdr_Name = ''ttl.com.'', Rrtype = 1, Class = 1, Ttl = 300\<rparr> (Some [1, 2, 3, 4]),
                RR_A \<lparr>Hdr_Name = ''ttl.com.'', Rrtype = 1, Class = 1, Ttl = 5\<rparr> (Some [1, 2, 3, 5])]\<rparr>"

definition demo_entry :: Entry where
  "demo_entry = \<lparr>Msg = 0, ExpiresAt = 60000000000, CreatedAt = 0\<rparr>"

definition demo_cache :: Cache where
  "demo_cache =
     (New 100 300000000000 60000000000 86400000000000)\<lparr>items := [''ttl.com.:A'' \<mapsto> demo_entry]\<rparr>"

text \<open>A remote cache holding one result that expires at time 10.\<close>

definition demo_result :: ResolveResult where
  "demo_result =
     \<lparr>Domain = ''expire.com'',
      Records = [\<lparr>Record_Name = ''expire.com'', Type = ''A'', Value = ''1.2.3.4'', TTL = 300\<rparr>],
      Cached = False\<rparr>"

definition demo_cacheEntry :: cacheEntry where
  "demo_cacheEntry = \<lparr>result = Some 0, expiresAt = 10\<rparr>"

definition demo_resolver_cache :: resolver_Cache where
  "demo_resolver_cache = (NewCache 10 1000000)\<lparr>resolver_items := [''expire.com:A'' \<mapsto> demo_cacheEntry]\<rparr>"

subsection \<open>Sequences of Set calls\<close>

text \<open>
  A sequence of \<open>Set\<close> calls: each call with the iteration order of its eviction scan,
  its arguments and its two clock readings. \<open>orders_ok\<close> says that each order
  enumerates the keys the map holds when that call runs.
\<close>

record Set_call =
  call_order :: "string list"
  call_key :: string
  call_msg :: "ptr option"
  call_now1 :: Time
  call_now2 :: Time

definition Set_by :: "Cache \<Rightarrow> heap \<Rightarrow> Set_call \<Rightarrow> Cache \<times> heap" where
  "Set_by c h x = Set c h (call_order x) (call_key x) (call_msg x) (call_now1 x) (call_now2 x)"

fun run_Sets :: "Cache \<Rightarrow> heap \<Rightarrow> Set_call list \<Rightarrow> Cache \<times> heap" where
  "run_Sets c h [] = (c, h)"
| "run_Sets c h (x # xs) = (case Set_by c h x of (c', h') \<Rightarrow> run_Sets c' h' xs)"

fun orders_ok :: "Cache \<Rightarrow> heap \<Rightarrow> Set_call list \<Rightarrow> bool" where
  "orders_ok c h [] = True"
| "orders_ok c h (x # xs) =
     (iteration_order (items c) (call_order x) \<and>
      (case Set_by c h x of (c', h') \<Rightarrow> orders_ok c' h' xs))"

text \<open>What \<open>Set\<close> keeps: a finite map without the empty key, within the capacity.\<close>

definition within_capacity :: "Cache \<Rightarrow> bool" where
  "within_capacity c \<longleftrightarrow> finite (dom (items c)) \<and> [] \<notin> dom (items c) \<and> Len c \<le> maxItems c"

text \<open>Two calls on a cache of capacity 1; the second finds the cache full.\<close>

definition demo_calls :: "Set_call list" where
  "demo_calls =
     [\<lparr>call_order = [], call_key = ''a.:A'', call_msg = Some 0, call_now1 = 1, call_now2 = 1\<rparr>,
      \<lparr>call_order = [''a.:A''], call_key = ''b.:A'', call_msg = Some 0, call_now1 = 2, call_now2 = 2\<rparr>]"

subsection \<open>Consecutive selections and sample clients\<close>

text \<open>\<open>k\<close> consecutive calls of \<open>selectRoundRobin\<close>, with the endpoints chosen in order.\<close>

fun select_calls :: "Client \<Rightarrow> nat \<Rightarrow> ptr option list \<times> Client" where
  "select_calls c 0 = ([], c)"
| "select_calls c (Suc k) =
     (case selectRoundRobin c of
        (ep, c') \<Rightarrow> (case select_calls c' k of (eps, c'') \<Rightarrow> (ep # eps, c'')))"

definition demo_endpoint :: "string \<Rightarrow> bool \<Rightarrow> Endpoint" where
  "demo_endpoint host up =
     \<lparr>URL = ''https://'' @ host @ ''/api/v1/resolve'', APIKey = ''key'', Weight = 1, Healthy = up\<rparr>"

text \<open>A pool whose first endpoint is down, and a pool of three with the counter at its top.\<close>

definition demo_client :: Client where
  "demo_client =
     \<lparr>endpoints = [demo_endpoint ''a.example'' False, demo_endpoint ''b.example'' True],
      cipher = None, timeout = 10000000000, maxRetries = 3, retryDelay = 500000000,
      loadBalancing = ''round_robin'', currentIndex = 0\<rparr>"

definition demo_client_wrap :: Client where
  "demo_client_wrap =
     \<lparr>endpoints = [demo_endpoint ''a.example'' True, demo_endpoint ''b.example'' True,
                  demo_endpoint ''c.example'' True],
      cipher = None, timeout = 10000000000, maxRetries = 3, retryDelay = 500000000,
      loadBalancing = ''round_robin'', currentIndex = 4294967295\<rparr>"

text \<open>A pool of two endpoints, both marked down.\<close>

definition demo_client_down :: Client where
  "demo_client_down =
     demo_client\<lparr>endpoints := [demo_endpoint ''a.example'' False, demo_endpoint ''b.example'' False]\<rparr>"

text \<open>
  An upstream whose MX lookup reports preference 20 and host \<open>mail.example.com\<close>; the
  library hands the host over fully qualified. Its other lookups fail.
\<close>

definition demo_upstream :: net_Resolver where
  "demo_upstream =
     \<lparr>LookupIP = (\<lambda>network host. Inl ''no such host''),
      LookupCNAME = (\<lambda>host. Inl ''no such host''),
      LookupMX = (\<lambda>name. Inr [\<lparr>Host = ''mail.example.com.'', Pref = 20\<rparr>]),
      LookupTXT = (\<lambda>name. Inl ''no such host''),
      LookupNS = (\<lambda>name. Inl ''no such host'')\<rparr>"

definition demo_MX_record :: DNSRecord where
  "demo_MX_record =
     \<lparr>Record_Name = ''example.com'', Type = ''MX'', Value = ''20 mail.example.com.'', TTL = 300\<rparr>"

text \<open>A key of 64 hex digits, the bytes the random source delivers, and a plaintext.\<close>

definition demo_hexKey :: string where
  "demo_hexKey = ''000102030405060708090a0b0c0d0e0f101112131415161718191A1B1C1D1E1F''"

definition demo_rand :: bytes where
  "demo_rand = [7, 1, 2, 3, 4, 5, 6, 7, 8, 9, 10, 11, 12, 13]"

definition demo_plaintext :: bytes where
  "demo_plaintext = [104, 105]"

section \<open>Theorems\<close>

subsection \<open>Set ignores a nil message and a message without question\<close>

text \<open>
  C10: the local cache's \<open>Set(key, msg)\<close> does nothing when \<open>msg\<close> is nil or has an
  empty question section: the cache (its map, hence its length and every entry) and
  the store are returned as they were, and \<open>key\<close> is bound exactly as before.
\<close>

theorem Set_nil_or_no_question_noop:
  assumes "msg = None \<or> (\<exists>m. msg = Some m \<and> Question (h ! m) = [])"
  shows "Set c h order key msg now1 now2 = (c, h)"
  using assms by (auto simp: Set_def)

theorem Set_nil_or_no_question_noop_witness:
  "Set demo_cache [demo_msg] [] ''k'' None 5 5 = (demo_cache, [demo_msg])
   \<and> Question ([demo_msg\<lparr>Question := []\<rparr>] ! 0) = []
   \<and> Set demo_cache [demo_msg\<lparr>Question := []\<rparr>] [] ''k'' (Some 0) 5 5
       = (demo_cache, [demo_msg\<lparr>Question := []\<rparr>])"
  using Set_nil_or_no_question_noop [of None "[demo_msg]" demo_cache "[]" "''k''" 5 5]
    Set_nil_or_no_question_noop [of "Some 0" "[demo_msg\<lparr>Question := []\<rparr>]" demo_cache "[]" "''k''" 5 5]
  by simp

subsection \<open>TTL decay on a local cache hit\<close>

lemma Header_set_Ttl: "Header (set_Ttl t rr) = (Header rr)\<lparr>Ttl := t\<rparr>"
  by (cases rr) simp_all

lemma uint32_Seconds_nonneg:
  assumes "0 \<le> d" "d div Second < 2 ^ 32"
  shows "uint (uint32_Seconds d) = d div Second"
proof -
  have "0 \<le> d div Second" using assms(1) by (simp add: Second_def pos_imp_zdiv_nonneg_iff)
  moreover have "sgn d * (\<bar>d\<bar> div Second) = d div Second"
    using assms(1) by (cases "d = 0") (simp_all add: Second_def)
  ultimately show ?thesis
    using assms(2) by (simp add: uint32_Seconds_def uint_word_of_int take_bit_int_eq_self)
qed

lemma adjust_ttl_value:
  "uint (Ttl (Header (adjust_ttl elapsed rr))) = max 1 (uint (Ttl (Header rr)) - uint elapsed)"
proof (cases "Ttl (Header rr) > elapsed")
  case True
  then have le: "elapsed \<le> Ttl (Header rr)" by simp
  have "uint (Ttl (Header rr) - elapsed) = uint (Ttl (Header rr)) - uint elapsed"
    using le by (simp add: uint_minus_simple_alt)
  moreover have "uint elapsed < uint (Ttl (Header rr))" using True by (simp add: word_less_def)
  ultimately show ?thesis using True by (simp add: adjust_ttl_def Header_set_Ttl)
next
  case False
  then have "uint (Ttl (Header rr)) \<le> uint elapsed" by (simp add: word_le_def not_less)
  then show ?thesis using False by (simp add: adjust_ttl_def Header_set_Ttl)
qed

text \<open>
  C2: on a hit of the local \<open>Get\<close> whose elapsed time is read at \<open>now2\<close>, every
  answer TTL of the returned message is \<open>max 1 (ttl - elapsed)\<close>, where \<open>ttl\<close> is the
  stored TTL and \<open>elapsed\<close> the whole seconds since \<open>CreatedAt\<close>; the cache is
  returned as it was, the returned message is a fresh cell, and the stored message
  is untouched. The clock does not run backwards, and the entry is younger than
  \<open>2 ^ 24\<close> seconds (194 days).
\<close>

theorem Get_hit_ttl_decay:
  assumes hit: "Get c h key now1 now2 = (c', h', Some p, True)"
    and entry: "items c key = Some e"
    and valid: "Msg e < length h"
    and clock: "CreatedAt e \<le> now2"
    and range: "(now2 - CreatedAt e) div Second < 2 ^ 24"
  shows "map (\<lambda>rr. uint (Ttl (Header rr))) (Answer (h' ! p)) =
         map (\<lambda>rr. max 1 (uint (Ttl (Header rr)) - (now2 - CreatedAt e) div Second))
             (Answer (h ! Msg e))
         \<and> c' = c \<and> p \<noteq> Msg e \<and> h' ! Msg e = h ! Msg e"
proof -
  have live: "\<not> now1 > ExpiresAt e"
    using hit entry by (auto simp: Get_def split: if_splits)
  let ?el = "uint32_Seconds (now2 - CreatedAt e)"
  have res: "c' = c" "p = length h"
    "h' = (h @ [h ! Msg e])[length h := (h ! Msg e)\<lparr>Answer := map (adjust_ttl ?el) (Answer (h ! Msg e))\<rparr>]"
    using hit entry live valid by (auto simp: Get_def Copy_def Let_def nth_append)
  have "(now2 - CreatedAt e) div Second < 2 ^ 32"
    using range by simp
  then have el: "uint ?el = (now2 - CreatedAt e) div Second"
    using clock by (intro uint32_Seconds_nonneg) simp_all
  have "h' ! p = (h ! Msg e)\<lparr>Answer := map (adjust_ttl ?el) (Answer (h ! Msg e))\<rparr>"
    using res by simp
  then have "map (\<lambda>rr. uint (Ttl (Header rr))) (Answer (h' ! p)) =
         map (\<lambda>rr. max 1 (uint (Ttl (Header rr)) - (now2 - CreatedAt e) div Second))
             (Answer (h ! Msg e))"
    by (simp add: adjust_ttl_value el o_def)
  moreover have "h' ! Msg e = h ! Msg e" using res valid by (simp add: nth_append)
  moreover have "p \<noteq> Msg e" using res valid by simp
  ultimately show ?thesis using res by simp
qed

lemma demo_Get:
  "Get demo_cache [demo_msg] ''ttl.com.:A'' 10000000000 10500000000 =
     (demo_cache,
      [demo_msg, demo_msg\<lparr>Answer :=
          [RR_A \<lparr>Hdr_Name = ''ttl.com.'', Rrtype = 1, Class = 1, Ttl = 290\<rparr> (Some [1, 2, 3, 4]),
           RR_A \<lparr>Hdr_Name = ''ttl.com.'', Rrtype = 1, Class = 1, Ttl = 1\<rparr> (Some [1, 2, 3, 5])]\<rparr>],
      Some 1, True)"
  by (simp add: Get_def demo_cache_def demo_entry_def demo_msg_def New_def Copy_def
      uint32_Seconds_def Second_def adjust_ttl_def)

theorem Get_hit_ttl_decay_witness:
  "Get demo_cache [demo_msg] ''ttl.com.:A'' 10000000000 10500000000 =
     (demo_cache,
      [demo_msg, demo_msg\<lparr>Answer :=
          [RR_A \<lparr>Hdr_Name = ''ttl.com.'', Rrtype = 1, Class = 1, Ttl = 290\<rparr> (Some [1, 2, 3, 4]),
           RR_A \<lparr>Hdr_Name = ''ttl.com.'', Rrtype = 1, Class = 1, Ttl = 1\<rparr> (Some [1, 2, 3, 5])]\<rparr>],
      Some 1, True)
   \<and> items demo_cache ''ttl.com.:A'' = Some demo_entry
   \<and> Msg demo_entry < length [demo_msg]
   \<and> CreatedAt demo_entry \<le> 10500000000
   \<and> (10500000000 - CreatedAt demo_entry) div Second < 2 ^ 24
   \<and> map (\<lambda>rr. uint (Ttl (Header rr))) (Answer (demo_msg\<lparr>Answer :=
          [RR_A \<lparr>Hdr_Name = ''ttl.com.'', Rrtype = 1, Class = 1, Ttl = 290\<rparr> (Some [1, 2, 3, 4]),
           RR_A \<lparr>Hdr_Name = ''ttl.com.'', Rrtype = 1, Class = 1, Ttl = 1\<rparr> (Some [1, 2, 3, 5])]\<rparr>))
      = [max 1 (300 - 10), max 1 (5 - 10)]"
proof -
  have entry: "items demo_cache ''ttl.com.:A'' = Some demo_entry"
    by (simp add: demo_cache_def)
  have valid: "Msg demo_entry < length [demo_msg]"
    by (simp add: demo_entry_def)
  have clock: "CreatedAt demo_entry \<le> 10500000000"
    by (simp add: demo_entry_def)
  have range: "(10500000000 - CreatedAt demo_entry) div Second < 2 ^ 24"
    by (simp add: demo_entry_def Second_def)
  from Get_hit_ttl_decay [OF demo_Get entry valid clock range]
  show ?thesis
    using demo_Get entry valid clock range
    by (simp add: demo_entry_def demo_msg_def Second_def)
qed

subsection \<open>Expiry and copying in the two Get operations\<close>

text \<open>
  C5, as the claim states it, fails on the remote tier: a \<open>Get\<close> at time 20 on an
  entry that expired at time 10 reports a miss and returns the cache with the entry
  still in its map.
\<close>

theorem resolver_Get_keeps_expired_entry:
  "expiresAt demo_cacheEntry < 20
   \<and> resolver_Get demo_resolver_cache [demo_result] ''expire.com:A'' 20
       = Inr (demo_resolver_cache, [demo_result], None, False)
   \<and> resolver_items demo_resolver_cache ''expire.com:A'' = Some demo_cacheEntry"
  by (simp add: resolver_Get_def demo_resolver_cache_def demo_cacheEntry_def)

lemma Get_expired:
  assumes "items c key = Some e" "now1 > ExpiresAt e"
  shows "Get c h key now1 now2 = (c\<lparr>items := (items c)(key := None)\<rparr>, h, None, False)"
  using assms by (simp add: Get_def)

lemma Get_live:
  assumes "items c key = Some e" "\<not> now1 > ExpiresAt e" "Msg e < length h"
  shows "Get c h key now1 now2 =
           (c, h @ [(h ! Msg e)\<lparr>Answer := map (adjust_ttl (uint32_Seconds (now2 - CreatedAt e)))
                                              (Answer (h ! Msg e))\<rparr>],
            Some (length h), True)"
  using assms by (simp add: Get_def Copy_def nth_append)

lemma resolver_Get_expired:
  assumes "resolver_items c key = Some e" "now > expiresAt e"
  shows "resolver_Get c h key now = Inr (c, h, None, False)"
  using assms by (simp add: resolver_Get_def)

lemma resolver_Get_live:
  assumes "resolver_items c key = Some e" "\<not> now > expiresAt e" "result e = Some r"
  shows "resolver_Get c h key now = Inr (c, h @ [h ! r], Some (length h), True)"
  using assms by (simp add: resolver_Get_def)

text \<open>
  C5, amended: the local \<open>Get\<close> on a present entry whose \<open>ExpiresAt\<close> lies before the
  clock reading deletes the entry and reports a miss; the remote \<open>Get\<close> reports the
  miss and leaves its map as it is. On a present, unexpired entry both return a hit
  with a pointer to a fresh cell that is not the stored object: the local one holds
  the stored message with its answer TTLs aged, the remote one the stored result; the
  stored object and the map are unchanged.
\<close>

theorem Get_expiry_and_copy:
  "(items c key = Some e \<and> now1 > ExpiresAt e \<longrightarrow>
      Get c h key now1 now2 = (c\<lparr>items := (items c)(key := None)\<rparr>, h, None, False))
   \<and> (items c key = Some e \<and> \<not> now1 > ExpiresAt e \<and> Msg e < length h \<longrightarrow>
      Get c h key now1 now2 =
        (c, h @ [(h ! Msg e)\<lparr>Answer := map (adjust_ttl (uint32_Seconds (now2 - CreatedAt e)))
                                           (Answer (h ! Msg e))\<rparr>],
         Some (length h), True)
      \<and> length h \<noteq> Msg e)
   \<and> (resolver_items rc rkey = Some re \<and> now > expiresAt re \<longrightarrow>
      resolver_Get rc rh rkey now = Inr (rc, rh, None, False))
   \<and> (resolver_items rc rkey = Some re \<and> \<not> now > expiresAt re \<and> result re = Some r
        \<and> r < length rh \<longrightarrow>
      resolver_Get rc rh rkey now = Inr (rc, rh @ [rh ! r], Some (length rh), True)
      \<and> length rh \<noteq> r)"
  using Get_expired [of c key e now1 h now2] Get_live [of c key e now1 h now2]
    resolver_Get_expired [of rc rkey re now rh] resolver_Get_live [of rc rkey re now r rh]
  by auto

theorem Get_expiry_and_copy_witness:
  "(items demo_cache ''ttl.com.:A'' = Some demo_entry \<and> 70000000000 > ExpiresAt demo_entry
    \<and> Get demo_cache [demo_msg] ''ttl.com.:A'' 70000000000 70000000000
        = (demo_cache\<lparr>items := Map.empty\<rparr>, [demo_msg], None, False))
   \<and> (\<not> 10000000000 > ExpiresAt demo_entry \<and> Msg demo_entry < length [demo_msg]
    \<and> fst (snd (snd (Get demo_cache [demo_msg] ''ttl.com.:A'' 10000000000 10000000000))) = Some 1)
   \<and> (resolver_items demo_resolver_cache ''expire.com:A'' = Some demo_cacheEntry
    \<and> 20 > expiresAt demo_cacheEntry
    \<and> resolver_Get demo_resolver_cache [demo_result] ''expire.com:A'' 20
        = Inr (demo_resolver_cache, [demo_result], None, False))
   \<and> (\<not> 5 > expiresAt demo_cacheEntry \<and> result demo_cacheEntry = Some 0
    \<and> 0 < length [demo_result]
    \<and> resolver_Get demo_resolver_cache [demo_result] ''expire.com:A'' 5
        = Inr (demo_resolver_cache, [demo_result, demo_result], Some 1, True))"
proof -
  have l: "items demo_cache ''ttl.com.:A'' = Some demo_entry"
    by (simp add: demo_cache_def)
  have r: "resolver_items demo_resolver_cache ''expire.com:A'' = Some demo_cacheEntry"
    by (simp add: demo_resolver_cache_def)
  have e: "ExpiresAt demo_entry = 60000000000" "Msg demo_entry = 0"
    "expiresAt demo_cacheEntry = 10" "result demo_cacheEntry = Some 0"
    by (simp_all add: demo_entry_def demo_cacheEntry_def)
  have m: "(items demo_cache)(''ttl.com.:A'' := None) = Map.empty"
    by (simp add: demo_cache_def)
  show ?thesis
    using Get_expiry_and_copy [of demo_cache "''ttl.com.:A''" demo_entry 70000000000
        "[demo_msg]" 70000000000 demo_resolver_cache "''expire.com:A''" demo_cacheEntry 20
        "[demo_result]" 0]
      Get_expiry_and_copy [of demo_cache "''ttl.com.:A''" demo_entry 10000000000
        "[demo_msg]" 10000000000 demo_resolver_cache "''expire.com:A''" demo_cacheEntry 5
        "[demo_result]" 0]
    by (simp add: l r e m)
qed

subsection \<open>Capacity of the local cache\<close>

text \<open>
  The eviction scan over keys of the map, none of them empty: once a key is chosen
  it stays a key of the map, carries its own expiry time, and that time is no later
  than the expiry of any key scanned.
\<close>

lemma evict_scan_min:
  assumes "[] \<notin> set ks" "set ks \<subseteq> dom m"
    and "k0 = [] \<or> (\<exists>e. m k0 = Some e \<and> ExpiresAt e = t0)"
    and "k0 = [] \<longrightarrow> ks \<noteq> []"
    and "evict_scan m ks (k0, t0) = (k, t)"
  shows "k \<noteq> [] \<and> (\<exists>e. m k = Some e \<and> ExpiresAt e = t) \<and> (k0 \<noteq> [] \<longrightarrow> t \<le> t0)
         \<and> (\<forall>k' \<in> set ks. \<forall>e'. m k' = Some e' \<longrightarrow> t \<le> ExpiresAt e')"
  using assms
proof (induction ks arbitrary: k0 t0)
  case Nil
  then show ?case by auto
next
  case (Cons key ks)
  from Cons.prems(2) obtain entry where entry: "m key = Some entry" by auto
  have key: "key \<noteq> []" using Cons.prems(1) by auto
  show ?case
  proof (cases "k0 = [] \<or> ExpiresAt entry < t0")
    case True
    then have scan: "evict_scan m ks (key, ExpiresAt entry) = (k, t)"
      using Cons.prems(5) entry by simp
    have "k \<noteq> [] \<and> (\<exists>e. m k = Some e \<and> ExpiresAt e = t) \<and> (key \<noteq> [] \<longrightarrow> t \<le> ExpiresAt entry)
         \<and> (\<forall>k' \<in> set ks. \<forall>e'. m k' = Some e' \<longrightarrow> t \<le> ExpiresAt e')"
      using Cons.prems(1,2) entry key by (intro Cons.IH [OF _ _ _ _ scan]) auto
    then show ?thesis using True key entry Cons.prems(3) by auto
  next
    case False
    then have scan: "evict_scan m ks (k0, t0) = (k, t)"
      using Cons.prems(5) entry by simp
    have "k \<noteq> [] \<and> (\<exists>e. m k = Some e \<and> ExpiresAt e = t) \<and> (k0 \<noteq> [] \<longrightarrow> t \<le> t0)
         \<and> (\<forall>k' \<in> set ks. \<forall>e'. m k' = Some e' \<longrightarrow> t \<le> ExpiresAt e')"
      using Cons.prems(1,2,3) False by (intro Cons.IH [OF _ _ _ _ scan]) auto
    then show ?thesis using False entry by auto
  qed
qed

lemma evictOldest_removes_earliest:
  assumes order: "iteration_order (items c) order"
    and keys: "[] \<notin> dom (items c)"
    and nonempty: "items c \<noteq> Map.empty"
  shows "\<exists>k e. items c k = Some e
           \<and> (\<forall>k' e'. items c k' = Some e' \<longrightarrow> ExpiresAt e \<le> ExpiresAt e')
           \<and> evictOldest c order = c\<lparr>items := (items c)(k := None)\<rparr>"
proof -
  obtain k t where scan: "evict_scan (items c) order ([], 0) = (k, t)"
    by (cases "evict_scan (items c) order ([], 0)") auto
  have set: "set order = dom (items c)" using order by (simp add: iteration_order_def)
  obtain k1 where "items c k1 \<noteq> None" using nonempty by fastforce
  then have "k1 \<in> set order" using set by (simp add: dom_def)
  then have ne: "order \<noteq> []" by auto
  have "k \<noteq> [] \<and> (\<exists>e. items c k = Some e \<and> ExpiresAt e = t) \<and> (([]::string) \<noteq> [] \<longrightarrow> t \<le> 0)
         \<and> (\<forall>k' \<in> set order. \<forall>e'. items c k' = Some e' \<longrightarrow> t \<le> ExpiresAt e')"
    using keys set ne by (intro evict_scan_min [OF _ _ _ _ scan]) auto
  then obtain e where k: "k \<noteq> []" "items c k = Some e" "ExpiresAt e = t"
    and least: "\<forall>k' \<in> set order. \<forall>e'. items c k' = Some e' \<longrightarrow> t \<le> ExpiresAt e'"
    by auto
  have "\<forall>k' e'. items c k' = Some e' \<longrightarrow> ExpiresAt e \<le> ExpiresAt e'"
    using least set k(3) by (auto simp: dom_def)
  moreover have "evictOldest c order = c\<lparr>items := (items c)(k := None)\<rparr>"
    using scan k(1) by (simp add: evictOldest_def)
  ultimately show ?thesis using k(2) by blast
qed

lemma Set_within_capacity:
  assumes inv: "within_capacity c"
    and cap: "1 \<le> maxItems c"
    and key: "key \<noteq> []"
    and order: "iteration_order (items c) order"
    and set: "Set c h order key msg now1 now2 = (c', h')"
  shows "within_capacity c' \<and> maxItems c' = maxItems c"
proof (cases "msg = None \<or> (\<exists>m. msg = Some m \<and> Question (h ! m) = [])")
  case True
  then have "c' = c" using set by (auto simp: Set_def)
  then show ?thesis using inv by simp
next
  case False
  then obtain m where m: "msg = Some m" "Question (h ! m) \<noteq> []" by auto
  define c1 where "c1 = (if Len c \<ge> maxItems c then evictOldest c order else c)"
  obtain en where c': "c' = c1\<lparr>items := (items c1)(key \<mapsto> en)\<rparr>"
    using set m by (auto simp: Set_def Let_def Copy_def c1_def)
  have fin: "finite (dom (items c))" and noempty: "[] \<notin> dom (items c)"
    and len: "Len c \<le> maxItems c"
    using inv by (auto simp: within_capacity_def)
  have c1: "finite (dom (items c1)) \<and> [] \<notin> dom (items c1) \<and> Len c1 < maxItems c
            \<and> maxItems c1 = maxItems c"
  proof (cases "Len c \<ge> maxItems c")
    case True
    then have "card (dom (items c)) \<noteq> 0" using cap by (simp add: Len_def)
    then have "items c \<noteq> Map.empty" by auto
    from evictOldest_removes_earliest [OF order noempty this]
    obtain k e where k: "items c k = Some e" "evictOldest c order = c\<lparr>items := (items c)(k := None)\<rparr>"
      by blast
    have eq: "c1 = c\<lparr>items := (items c)(k := None)\<rparr>" using True k(2) by (simp add: c1_def)
    have "k \<in> dom (items c)" using k(1) by auto
    then have "card (dom (items c) - {k}) < card (dom (items c))"
      using fin by (intro card_Diff1_less)
    then have "Len c1 < Len c" by (simp add: eq Len_def)
    then show ?thesis using fin noempty len by (simp add: eq)
  next
    case False
    then show ?thesis using fin noempty by (simp add: c1_def)
  qed
  have "card (insert key (dom (items c1))) \<le> Suc (card (dom (items c1)))"
    by (rule card_insert_le_m1) simp_all
  then have "Len c' \<le> Len c1 + 1" by (simp add: c' Len_def)
  then show ?thesis using c1 key by (auto simp: within_capacity_def c')
qed

lemma run_Sets_within_capacity:
  assumes "within_capacity c" "1 \<le> maxItems c" "\<forall>x \<in> set calls. call_key x \<noteq> []"
    and "orders_ok c h calls"
  shows "within_capacity (fst (run_Sets c h calls)) \<and> maxItems (fst (run_Sets c h calls)) = maxItems c"
  using assms
proof (induction calls arbitrary: c h)
  case Nil
  then show ?case by simp
next
  case (Cons x xs)
  obtain c' h' where step: "Set_by c h x = (c', h')" by (cases "Set_by c h x") auto
  have key: "call_key x \<noteq> []" using Cons.prems(3) by simp
  have order: "iteration_order (items c) (call_order x)" using Cons.prems(4) by simp
  have c': "within_capacity c' \<and> maxItems c' = maxItems c"
    using Set_within_capacity [OF Cons.prems(1,2) key order] step by (simp add: Set_by_def)
  have "within_capacity (fst (run_Sets c' h' xs)) \<and> maxItems (fst (run_Sets c' h' xs)) = maxItems c'"
    using c' Cons.prems(2,3,4) step by (intro Cons.IH) auto
  then show ?case using step c' by simp
qed

text \<open>
  C7, as the claim states it, fails: with capacity 0 a single \<open>Set\<close> leaves one entry,
  and with capacity 1 a \<open>Set\<close> under the empty key followed by a \<open>Set\<close> under another
  key leaves two, since the eviction scan reads the empty key as "nothing chosen".
\<close>

theorem Set_exceeds_capacity:
  "\<not> Len (fst (run_Sets (New 0 300 60 900) [demo_msg]
        [\<lparr>call_order = [], call_key = ''a.:A'', call_msg = Some 0, call_now1 = 1, call_now2 = 1\<rparr>]))
      \<le> 0
   \<and> orders_ok (New 1 300 60 900) [demo_msg]
        [\<lparr>call_order = [], call_key = [], call_msg = Some 0, call_now1 = 1, call_now2 = 1\<rparr>,
         \<lparr>call_order = [[]], call_key = ''a.:A'', call_msg = Some 0, call_now1 = 2, call_now2 = 2\<rparr>]
   \<and> \<not> Len (fst (run_Sets (New 1 300 60 900) [demo_msg]
        [\<lparr>call_order = [], call_key = [], call_msg = Some 0, call_now1 = 1, call_now2 = 1\<rparr>,
         \<lparr>call_order = [[]], call_key = ''a.:A'', call_msg = Some 0, call_now1 = 2, call_now2 = 2\<rparr>]))
      \<le> 1"
  by (simp add: Set_by_def Set_def New_def Len_def evictOldest_def demo_msg_def Copy_def
      iteration_order_def Let_def)

lemma Set_stores_entry:
  assumes "Question (h ! m) \<noteq> []"
  shows "\<exists>t. items (fst (Set c h order key (Some m) now1 now2)) =
           (items (if Len c \<ge> maxItems c then evictOldest c order else c))
             (key \<mapsto> \<lparr>Msg = length h, ExpiresAt = t, CreatedAt = now2\<rparr>)"
  using assms
  apply (simp add: Set_def Let_def Copy_def split del: if_split)
  apply (rule exI)
  apply (rule refl)
  done

lemma Set_at_capacity_evicts_earliest:
  assumes order: "iteration_order (items c) order"
    and keys: "[] \<notin> dom (items c)"
    and cap: "1 \<le> maxItems c"
    and full: "Len c \<ge> maxItems c"
    and msg: "Question (h ! m) \<noteq> []"
  shows "\<exists>k e en. items c k = Some e
           \<and> (\<forall>k' e'. items c k' = Some e' \<longrightarrow> ExpiresAt e \<le> ExpiresAt e')
           \<and> Msg en = length h \<and> CreatedAt en = now2
           \<and> items (fst (Set c h order key (Some m) now1 now2)) = ((items c)(k := None))(key \<mapsto> en)"
proof -
  have "card (dom (items c)) \<noteq> 0" using cap full by (simp add: Len_def)
  then have "items c \<noteq> Map.empty" by auto
  from evictOldest_removes_earliest [OF order keys this]
  obtain k e where k: "items c k = Some e"
    "\<forall>k' e'. items c k' = Some e' \<longrightarrow> ExpiresAt e \<le> ExpiresAt e'"
    "evictOldest c order = c\<lparr>items := (items c)(k := None)\<rparr>"
    by blast
  obtain t where "items (fst (Set c h order key (Some m) now1 now2)) =
      ((items c)(k := None))(key \<mapsto> \<lparr>Msg = length h, ExpiresAt = t, CreatedAt = now2\<rparr>)"
    using Set_stores_entry [OF msg, of c order key now1 now2] full k(3) by auto
  moreover have "Msg \<lparr>Msg = length h, ExpiresAt = t, CreatedAt = now2\<rparr> = length h"
    "CreatedAt \<lparr>Msg = length h, ExpiresAt = t, CreatedAt = now2\<rparr> = now2"
    by simp_all
  ultimately show ?thesis using k(1,2) by blast
qed

lemma Set_below_capacity_keeps_all:
  assumes room: "Len c < maxItems c" and msg: "Question (h ! m) \<noteq> []"
  shows "\<exists>en. Msg en = length h \<and> CreatedAt en = now2
           \<and> items (fst (Set c h order key (Some m) now1 now2)) = (items c)(key \<mapsto> en)"
proof -
  obtain t where "items (fst (Set c h order key (Some m) now1 now2)) =
      (items c)(key \<mapsto> \<lparr>Msg = length h, ExpiresAt = t, CreatedAt = now2\<rparr>)"
    using Set_stores_entry [OF msg, of c order key now1 now2] room by auto
  moreover have "Msg \<lparr>Msg = length h, ExpiresAt = t, CreatedAt = now2\<rparr> = length h"
    "CreatedAt \<lparr>Msg = length h, ExpiresAt = t, CreatedAt = now2\<rparr> = now2"
    by simp_all
  ultimately show ?thesis by blast
qed

text \<open>
  C7, amended: for a local cache of capacity \<open>max_items \<ge> 1\<close> and every finite
  sequence of \<open>Set\<close> calls under non-empty keys, started on the empty cache,
  \<open>Len \<le> max_items\<close> holds afterwards. A \<open>Set\<close> of a message with a question that
  finds \<open>Len \<ge> max_items\<close>, in a cache of capacity at least 1 without the empty
  key, leaves the map it found with exactly one entry removed, one whose \<open>ExpiresAt\<close>
  is earliest, and the new entry bound to the key; a \<open>Set\<close> that finds
  \<open>Len < max_items\<close> removes nothing.
\<close>

theorem Set_keeps_capacity:
  "(1 \<le> n \<and> (\<forall>x \<in> set calls. call_key x \<noteq> []) \<and> orders_ok (New n d lo hi) h calls \<longrightarrow>
      Len (fst (run_Sets (New n d lo hi) h calls)) \<le> n)
   \<and> (iteration_order (items c) order \<and> [] \<notin> dom (items c) \<and> 1 \<le> maxItems c
        \<and> Len c \<ge> maxItems c \<and> Question (h' ! m) \<noteq> [] \<longrightarrow>
      (\<exists>k e en. items c k = Some e
           \<and> (\<forall>k' e'. items c k' = Some e' \<longrightarrow> ExpiresAt e \<le> ExpiresAt e')
           \<and> Msg en = length h' \<and> CreatedAt en = now2
           \<and> items (fst (Set c h' order key (Some m) now1 now2))
               = ((items c)(k := None))(key \<mapsto> en)))
   \<and> (Len c < maxItems c \<and> Question (h' ! m) \<noteq> [] \<longrightarrow>
      (\<exists>en. Msg en = length h' \<and> CreatedAt en = now2
           \<and> items (fst (Set c h' order key (Some m) now1 now2)) = (items c)(key \<mapsto> en)))"
proof (intro conjI impI)
  assume a: "1 \<le> n \<and> (\<forall>x \<in> set calls. call_key x \<noteq> []) \<and> orders_ok (New n d lo hi) h calls"
  have start: "within_capacity (New n d lo hi)" if "1 \<le> n"
    using that by (simp add: within_capacity_def New_def Len_def)
  have "Len (fst (run_Sets (New n d lo hi) h calls)) \<le> n"
    if "1 \<le> n" "\<forall>x \<in> set calls. call_key x \<noteq> []" "orders_ok (New n d lo hi) h calls"
    using run_Sets_within_capacity [OF start [OF that(1)] _ that(2,3)] that(1)
    by (simp add: within_capacity_def New_def)
  then show "Len (fst (run_Sets (New n d lo hi) h calls)) \<le> n"
    using a by blast
next
  assume "iteration_order (items c) order \<and> [] \<notin> dom (items c) \<and> 1 \<le> maxItems c
        \<and> Len c \<ge> maxItems c \<and> Question (h' ! m) \<noteq> []"
  then show "\<exists>k e en. items c k = Some e
           \<and> (\<forall>k' e'. items c k' = Some e' \<longrightarrow> ExpiresAt e \<le> ExpiresAt e')
           \<and> Msg en = length h' \<and> CreatedAt en = now2
           \<and> items (fst (Set c h' order key (Some m) now1 now2))
               = ((items c)(k := None))(key \<mapsto> en)"
    using Set_at_capacity_evicts_earliest [of c order h' m now2 key now1] by blast
next
  assume "Len c < maxItems c \<and> Question (h' ! m) \<noteq> []"
  then show "\<exists>en. Msg en = length h' \<and> CreatedAt en = now2
           \<and> items (fst (Set c h' order key (Some m) now1 now2)) = (items c)(key \<mapsto> en)"
    using Set_below_capacity_keeps_all [of c h' m now2 order key now1] by blast
qed

theorem Set_keeps_capacity_witness:
  "(1::int) \<le> 1 \<and> map call_key demo_calls = [''a.:A'', ''b.:A'']
   \<and> orders_ok (New 1 300 60 900) [demo_msg] demo_calls
   \<and> Len (fst (run_Sets (New 1 300 60 900) [demo_msg] demo_calls)) \<le> 1
   \<and> iteration_order (items demo_cache) [''ttl.com.:A'']
   \<and> [] \<notin> dom (items demo_cache)
   \<and> Len (demo_cache\<lparr>maxItems := 1\<rparr>) \<ge> 1
   \<and> Question ([demo_msg] ! 0) \<noteq> []
   \<and> items (fst (Set (demo_cache\<lparr>maxItems := 1\<rparr>) [demo_msg] [''ttl.com.:A''] ''b.:A'' (Some 0) 7 8))
       = [''b.:A'' \<mapsto> \<lparr>Msg = 1, ExpiresAt = 60000000007, CreatedAt = 8\<rparr>]
   \<and> Len demo_cache < maxItems demo_cache
   \<and> items (fst (Set demo_cache [demo_msg] [''ttl.com.:A''] ''b.:A'' (Some 0) 7 8))
       = [''ttl.com.:A'' \<mapsto> demo_entry,
          ''b.:A'' \<mapsto> \<lparr>Msg = 1, ExpiresAt = 60000000007, CreatedAt = 8\<rparr>]"
proof -
  have keys: "map call_key demo_calls = [''a.:A'', ''b.:A'']"
    by (simp add: demo_calls_def)
  then have keys': "\<forall>x \<in> set demo_calls. call_key x \<noteq> []"
    by (simp add: demo_calls_def)
  have orders: "orders_ok (New 1 300 60 900) [demo_msg] demo_calls"
    by (simp add: demo_calls_def Set_by_def Set_def New_def Len_def evictOldest_def
        demo_msg_def Copy_def iteration_order_def Let_def)
  have order: "iteration_order (items demo_cache) [''ttl.com.:A'']"
    by (simp add: demo_cache_def iteration_order_def)
  have dom: "[] \<notin> dom (items demo_cache)"
    by (simp add: demo_cache_def)
  have full: "Len (demo_cache\<lparr>maxItems := 1\<rparr>) \<ge> 1"
    by (simp add: demo_cache_def Len_def)
  have room: "Len demo_cache < maxItems demo_cache"
    by (simp add: demo_cache_def Len_def New_def)
  have msg: "Question ([demo_msg] ! 0) \<noteq> []"
    by (simp add: demo_msg_def)
  have evicted: "items (fst (Set (demo_cache\<lparr>maxItems := 1\<rparr>) [demo_msg] [''ttl.com.:A''] ''b.:A'' (Some 0) 7 8))
       = [''b.:A'' \<mapsto> \<lparr>Msg = 1, ExpiresAt = 60000000007, CreatedAt = 8\<rparr>]"
    by (simp add: Set_def Let_def Copy_def Len_def evictOldest_def demo_cache_def demo_entry_def
        demo_msg_def New_def minAnswerTTL_def Second_def)
  have kept: "items (fst (Set demo_cache [demo_msg] [''ttl.com.:A''] ''b.:A'' (Some 0) 7 8))
       = [''ttl.com.:A'' \<mapsto> demo_entry,
          ''b.:A'' \<mapsto> \<lparr>Msg = 1, ExpiresAt = 60000000007, CreatedAt = 8\<rparr>]"
    by (simp add: Set_def Let_def Copy_def Len_def demo_cache_def
        demo_msg_def New_def minAnswerTTL_def Second_def)
  from Set_keeps_capacity [of 1 demo_calls 300 60 900 "[demo_msg]" "demo_cache\<lparr>maxItems := 1\<rparr>"
      "[''ttl.com.:A'']" "[demo_msg]" 0 8 "''b.:A''" 7]
    Set_keeps_capacity [of 1 demo_calls 300 60 900 "[demo_msg]" demo_cache
      "[''ttl.com.:A'']" "[demo_msg]" 0 8 "''b.:A''" 7]
  have len: "Len (fst (run_Sets (New 1 300 60 900) [demo_msg] demo_calls)) \<le> 1"
    using keys' orders by simp
  then show ?thesis using keys orders order dom full room msg evicted kept by simp
qed

subsection \<open>Round-robin selection\<close>

lemma roundRobin_loop_first_healthy:
  assumes "j < left"
    and "Healthy (eps ! (unat (counter + of_nat j) mod length eps))"
    and "\<forall>j' < j. \<not> Healthy (eps ! (unat (counter + of_nat j') mod length eps))"
  shows "roundRobin_loop eps left counter =
           (Some (unat (counter + of_nat j) mod length eps), counter + of_nat j + 1)"
  using assms
proof (induction left arbitrary: counter j)
  case 0
  then show ?case by simp
next
  case (Suc left)
  show ?case
  proof (cases j)
    case 0
    then show ?thesis using Suc.prems(2) by simp
  next
    case (Suc i)
    have down: "\<not> Healthy (eps ! (unat counter mod length eps))"
      using Suc.prems(3) Suc by (auto dest: spec [of _ 0])
    have shift: "counter + 1 + of_nat k = counter + of_nat (Suc k)" for k
      by simp
    have "roundRobin_loop eps left (counter + 1) =
            (Some (unat (counter + 1 + of_nat i) mod length eps), counter + 1 + of_nat i + 1)"
    proof (rule Suc.IH)
      show "i < left" using Suc.prems(1) Suc by simp
      show "Healthy (eps ! (unat (counter + 1 + of_nat i) mod length eps))"
        unfolding shift using Suc.prems(2) Suc by blast
      show "\<forall>j' < i. \<not> Healthy (eps ! (unat (counter + 1 + of_nat j') mod length eps))"
      proof (intro allI impI)
        fix j' assume "j' < i"
        then have "Suc j' < j" using Suc by simp
        then show "\<not> Healthy (eps ! (unat (counter + 1 + of_nat j') mod length eps))"
          unfolding shift using Suc.prems(3) by blast
      qed
    qed
    then show ?thesis using down Suc by (simp add: add.assoc)
  qed
qed

lemma roundRobin_loop_none_healthy:
  assumes "\<forall>j' < left. \<not> Healthy (eps ! (unat (counter + of_nat j') mod length eps))"
  shows "roundRobin_loop eps left counter =
           (if length eps > 0 then Some 0 else None, counter + of_nat left)"
  using assms
proof (induction left arbitrary: counter)
  case 0
  then show ?case by simp
next
  case (Suc left)
  have down: "\<not> Healthy (eps ! (unat counter mod length eps))"
    using Suc.prems by (auto dest: spec [of _ 0])
  have shift: "counter + 1 + of_nat k = counter + of_nat (Suc k)" for k
    by simp
  have "roundRobin_loop eps left (counter + 1) =
          (if length eps > 0 then Some 0 else None, counter + 1 + of_nat left)"
  proof (rule Suc.IH, intro allI impI)
    fix j' assume "j' < left"
    then have "Suc j' < Suc left" by simp
    then show "\<not> Healthy (eps ! (unat (counter + 1 + of_nat j') mod length eps))"
      unfolding shift using Suc.prems by blast
  qed
  then show ?case using down by (simp add: add.assoc)
qed

lemma selectRoundRobin_all_healthy:
  assumes "\<forall>e \<in> set (endpoints c). Healthy e" "endpoints c \<noteq> []"
  shows "selectRoundRobin c =
           (Some (unat (currentIndex c) mod length (endpoints c)),
            c\<lparr>currentIndex := currentIndex c + 1\<rparr>)"
proof -
  have "unat (currentIndex c) mod length (endpoints c) < length (endpoints c)"
    using assms(2) by simp
  then have up: "Healthy (endpoints c ! (unat (currentIndex c + of_nat 0) mod length (endpoints c)))"
    using assms(1) by simp
  have "roundRobin_loop (endpoints c) (length (endpoints c)) (currentIndex c) =
          (Some (unat (currentIndex c + of_nat 0) mod length (endpoints c)),
           currentIndex c + of_nat 0 + 1)"
    using assms(2) up by (intro roundRobin_loop_first_healthy) simp_all
  then show ?thesis by (simp add: selectRoundRobin_def)
qed

lemma select_calls_all_healthy:
  assumes "\<forall>e \<in> set (endpoints c). Healthy e" "endpoints c \<noteq> []"
  shows "select_calls c m =
           (map (\<lambda>j. Some (unat (currentIndex c + of_nat j) mod length (endpoints c))) [0..<m],
            c\<lparr>currentIndex := currentIndex c + of_nat m\<rparr>)"
  using assms
proof (induction m arbitrary: c)
  case 0
  then show ?case by simp
next
  case (Suc m)
  let ?c' = "c\<lparr>currentIndex := currentIndex c + 1\<rparr>"
  have step: "selectRoundRobin c =
      (Some (unat (currentIndex c) mod length (endpoints c)), ?c')"
    using Suc.prems by (rule selectRoundRobin_all_healthy)
  have rest: "select_calls ?c' m =
      (map (\<lambda>j. Some (unat (currentIndex ?c' + of_nat j) mod length (endpoints ?c'))) [0..<m],
       ?c'\<lparr>currentIndex := currentIndex ?c' + of_nat m\<rparr>)"
    using Suc.prems by (intro Suc.IH) simp_all
  show ?case
    by (simp add: step rest map_upt_Suc add.assoc del: upt_Suc)
qed

text \<open>In any \<open>n\<close> consecutive numbers each residue modulo \<open>n\<close> occurs exactly once.\<close>

lemma shifted_residues_differ:
  fixes a n x y :: nat
  assumes "y < n" "(a + x) mod n = (a + y) mod n" "x \<le> y"
  shows "x = y"
proof -
  have "a + x \<le> a + y" using assms(3) by simp
  then have "n dvd (a + y) - (a + x)"
    using assms(2) [symmetric] by (simp only: mod_eq_dvd_iff_nat)
  then have "n dvd y - x" by simp
  moreover have "y - x < n" using assms(1) by simp
  ultimately have "y - x = 0" using nat_dvd_not_less by blast
  then show ?thesis using assms(3) by simp
qed

lemma count_upt:
  assumes "j < n"
  shows "count_list [0..<n] j = (1::nat)"
proof -
  have "{x. j = x} \<inter> set [0..<n] = {j}" using assms by auto
  then show ?thesis by (simp add: count_list_eq_length_filter distinct_length_filter)
qed

lemma count_window:
  assumes "i < n"
  shows "count_list (map (\<lambda>j. Some ((a + j) mod n)) [0..<n]) (Some i) = (1::nat)"
proof -
  let ?f = "\<lambda>j. Some ((a + j) mod n)"
  let ?j = "(i + n - a mod n) mod n"
  have n: "0 < n" using assms by simp
  have "(a + ?j) mod n = (a mod n + (i + n - a mod n)) mod n"
    by (simp add: mod_add_right_eq mod_add_left_eq)
  also have "a mod n + (i + n - a mod n) = i + n"
    using mod_less_divisor [OF n, of a] by simp
  finally have hit: "?f ?j = Some i" using assms by simp
  have inj: "inj_on ?f (set [0..<n])"
  proof (rule inj_onI)
    fix x y assume xy: "x \<in> set [0..<n]" "y \<in> set [0..<n]" "?f x = ?f y"
    then have eq: "(a + x) mod n = (a + y) mod n" by simp
    show "x = y"
    proof (cases "x \<le> y")
      case True
      then show ?thesis using shifted_residues_differ [of y n a x] xy eq by simp
    next
      case False
      then show ?thesis using shifted_residues_differ [of x n a y] xy eq by simp
    qed
  qed
  have "count_list (map ?f [0..<n]) (?f ?j) = count_list [0..<n] ?j"
    using n by (intro count_list_inj_map [OF inj]) simp
  also have "\<dots> = 1" using n by (intro count_upt) simp
  finally show ?thesis using hit by simp
qed

lemma count_windows:
  assumes "i < n"
  shows "count_list (map (\<lambda>j. Some ((a + j) mod n)) [0..<n * k]) (Some i) = k"
proof (induction k)
  case 0
  then show ?case by simp
next
  case (Suc k)
  let ?f = "\<lambda>j. Some ((a + j) mod n)"
  have e1: "map (\<lambda>j. j + n * k) [0..<n] = [n * k..<n + n * k]"
    by (rule map_add_upt)
  have e2: "[0..<n * k + n] = [0..<n * k] @ [n * k..<n * k + n]"
    by (rule upt_add_eq_append) simp
  have e3: "n * Suc k = n * k + n" by simp
  have e4: "n + n * k = n * k + n" by simp
  have split: "[0..<n * Suc k] = [0..<n * k] @ map (\<lambda>j. j + n * k) [0..<n]"
    by (simp only: e1 e2 e3 e4)
  have shift: "(a + (j + n * k)) mod n = (a + j) mod n" for j
  proof -
    have "a + (j + n * k) = n * k + (a + j)" by simp
    then show ?thesis by (simp only: mod_mult_self4)
  qed
  have "map ?f (map (\<lambda>j. j + n * k) [0..<n]) = map ?f [0..<n]"
    by (simp only: map_map o_def shift)
  then have "map ?f [0..<n * Suc k] = map ?f [0..<n * k] @ map ?f [0..<n]"
    by (simp only: split map_append)
  then have "count_list (map ?f [0..<n * Suc k]) (Some i)
        = count_list (map ?f [0..<n * k]) (Some i) + count_list (map ?f [0..<n]) (Some i)"
    by (simp only: count_list_append)
  then show ?case
    by (simp only: Suc count_window [OF assms, of a] Suc_eq_plus1)
qed

text \<open>
  C4, as the claim states it, fails twice. With the first of two endpoints down and
  the counter at 0, one selection call leaves the counter at 2, not 1. And with three
  healthy endpoints and the counter at its top value, three calls choose the first
  endpoint twice and the third not at all.
\<close>

theorem selectRoundRobin_counter_and_wrap:
  "selectRoundRobin demo_client = (Some 1, demo_client\<lparr>currentIndex := 2\<rparr>)
   \<and> map Healthy (endpoints demo_client_wrap) = [True, True, True]
   \<and> fst (select_calls demo_client_wrap 3) = [Some 0, Some 0, Some 1]"
proof -
  have three: "select_calls demo_client_wrap 3 = select_calls demo_client_wrap (Suc (Suc (Suc 0)))"
    by (simp only: numeral_3_eq_3)
  show ?thesis
    unfolding three
    by (simp add: selectRoundRobin_def demo_client_def demo_client_wrap_def demo_endpoint_def)
qed

text \<open>
  C4, amended: under \<open>round_robin\<close> a selection call reads and increments the counter
  once per position it scans. The positions are the successive counter values modulo
  \<open>n\<close>; the call returns the first healthy endpoint among at most \<open>n\<close> of them and
  leaves the counter just behind it, and when none is healthy it returns the first
  endpoint of the pool with the counter advanced by \<open>n\<close>. With all \<open>n\<close> endpoints
  healthy each call advances the counter by one, and over \<open>n * k\<close> consecutive calls
  during which the 32-bit counter does not wrap each endpoint is chosen exactly \<open>k\<close>
  times.
\<close>

theorem selectRoundRobin_scan_and_fairness:
  "(j < length (endpoints c)
     \<and> Healthy (endpoints c ! (unat (currentIndex c + of_nat j) mod length (endpoints c)))
     \<and> (\<forall>j' < j. \<not> Healthy (endpoints c ! (unat (currentIndex c + of_nat j') mod length (endpoints c))))
     \<longrightarrow> selectRoundRobin c =
           (Some (unat (currentIndex c + of_nat j) mod length (endpoints c)),
            c\<lparr>currentIndex := currentIndex c + of_nat j + 1\<rparr>))
   \<and> (endpoints c \<noteq> []
     \<and> (\<forall>j' < length (endpoints c).
            \<not> Healthy (endpoints c ! (unat (currentIndex c + of_nat j') mod length (endpoints c))))
     \<longrightarrow> selectRoundRobin c =
           (Some 0, c\<lparr>currentIndex := currentIndex c + of_nat (length (endpoints c))\<rparr>))
   \<and> (endpoints c \<noteq> [] \<and> (\<forall>e \<in> set (endpoints c). Healthy e)
     \<and> unat (currentIndex c) + length (endpoints c) * k \<le> 2 ^ 32
     \<longrightarrow> (\<forall>i < length (endpoints c).
            count_list (fst (select_calls c (length (endpoints c) * k))) (Some i) = k))"
proof (intro conjI impI)
  assume "j < length (endpoints c)
     \<and> Healthy (endpoints c ! (unat (currentIndex c + of_nat j) mod length (endpoints c)))
     \<and> (\<forall>j' < j. \<not> Healthy (endpoints c ! (unat (currentIndex c + of_nat j') mod length (endpoints c))))"
  then show "selectRoundRobin c =
           (Some (unat (currentIndex c + of_nat j) mod length (endpoints c)),
            c\<lparr>currentIndex := currentIndex c + of_nat j + 1\<rparr>)"
    using roundRobin_loop_first_healthy [of j "length (endpoints c)" "endpoints c" "currentIndex c"]
    by (simp add: selectRoundRobin_def)
next
  assume "endpoints c \<noteq> []
     \<and> (\<forall>j' < length (endpoints c).
            \<not> Healthy (endpoints c ! (unat (currentIndex c + of_nat j') mod length (endpoints c))))"
  then show "selectRoundRobin c =
           (Some 0, c\<lparr>currentIndex := currentIndex c + of_nat (length (endpoints c))\<rparr>)"
    using roundRobin_loop_none_healthy [of "length (endpoints c)" "endpoints c" "currentIndex c"]
    by (simp add: selectRoundRobin_def)
next
  let ?n = "length (endpoints c)"
  assume a: "endpoints c \<noteq> [] \<and> (\<forall>e \<in> set (endpoints c). Healthy e)
     \<and> unat (currentIndex c) + ?n * k \<le> 2 ^ 32"
  have nowrap: "unat (currentIndex c + of_nat j) = unat (currentIndex c) + j" if "j < ?n * k" for j
  proof -
    have "unat (currentIndex c) + j < 2 ^ 32" using a that by simp
    moreover from this have "unat (of_nat j :: 32 word) = j"
      by (simp add: unat_of_nat)
    ultimately show ?thesis by (simp add: unat_add_lem [THEN iffD1])
  qed
  have "fst (select_calls c (?n * k)) =
          map (\<lambda>j. Some (unat (currentIndex c + of_nat j) mod ?n)) [0..<?n * k]"
    using a by (simp add: select_calls_all_healthy)
  also have "\<dots> = map (\<lambda>j. Some ((unat (currentIndex c) + j) mod ?n)) [0..<?n * k]"
    using nowrap by simp
  finally show "\<forall>i < ?n. count_list (fst (select_calls c (?n * k))) (Some i) = k"
    by (simp add: count_windows)
qed

theorem selectRoundRobin_scan_and_fairness_witness:
  "(1 < length (endpoints demo_client)
     \<and> Healthy (endpoints demo_client ! 1) \<and> \<not> Healthy (endpoints demo_client ! 0)
     \<and> selectRoundRobin demo_client = (Some 1, demo_client\<lparr>currentIndex := 2\<rparr>))
   \<and> (\<not> Healthy (demo_endpoint ''a.example'' False)
     \<and> selectRoundRobin (demo_client\<lparr>endpoints := [demo_endpoint ''a.example'' False]\<rparr>)
         = (Some 0, demo_client\<lparr>endpoints := [demo_endpoint ''a.example'' False], currentIndex := 1\<rparr>))
   \<and> (map Healthy (endpoints demo_client_wrap) = [True, True, True]
     \<and> count_list (fst (select_calls (demo_client_wrap\<lparr>currentIndex := 0\<rparr>) (3 * 2))) (Some 0) = 2
     \<and> count_list (fst (select_calls (demo_client_wrap\<lparr>currentIndex := 0\<rparr>) (3 * 2))) (Some 1) = 2
     \<and> count_list (fst (select_calls (demo_client_wrap\<lparr>currentIndex := 0\<rparr>) (3 * 2))) (Some 2) = 2)"
proof -
  have a: "endpoints demo_client = [demo_endpoint ''a.example'' False, demo_endpoint ''b.example'' True]"
    "currentIndex demo_client = 0"
    by (simp_all add: demo_client_def)
  have b: "Healthy (demo_endpoint h up) = up" for h up
    by (simp add: demo_endpoint_def)
  have c: "endpoints demo_client_wrap = [demo_endpoint ''a.example'' True,
      demo_endpoint ''b.example'' True, demo_endpoint ''c.example'' True]"
    by (simp add: demo_client_wrap_def)
  have first: "selectRoundRobin demo_client = (Some 1, demo_client\<lparr>currentIndex := 2\<rparr>)"
    using selectRoundRobin_scan_and_fairness [of 1 demo_client 0]
    by (simp add: a b)
  have none: "selectRoundRobin (demo_client\<lparr>endpoints := [demo_endpoint ''a.example'' False]\<rparr>)
         = (Some 0, demo_client\<lparr>endpoints := [demo_endpoint ''a.example'' False], currentIndex := 1\<rparr>)"
    using selectRoundRobin_scan_and_fairness
      [of 0 "demo_client\<lparr>endpoints := [demo_endpoint ''a.example'' False]\<rparr>" 0]
    by (simp add: a b)
  have fair: "\<forall>i < 3. count_list (fst (select_calls (demo_client_wrap\<lparr>currentIndex := 0\<rparr>) (3 * 2)))
                       (Some i) = 2"
    using selectRoundRobin_scan_and_fairness [of 0 "demo_client_wrap\<lparr>currentIndex := 0\<rparr>" 2]
    by (simp add: b c)
  have "(0::nat) < 3" "(1::nat) < 3" "(2::nat) < 3" by simp_all
  then show ?thesis using first none fair by (simp add: a b c)
qed

subsection \<open>Selection from a non-empty pool\<close>

lemma roundRobin_loop_in_pool:
  assumes "eps \<noteq> []"
  shows "\<exists>i. fst (roundRobin_loop eps left counter) = Some i \<and> i < length eps"
  using assms by (induction left arbitrary: counter) (simp_all add: Let_def)

lemma failover_loop_in_pool:
  assumes "failover_loop eps k = Some i"
  shows "k \<le> i \<and> i < k + length eps"
  using assms
proof (induction eps arbitrary: k)
  case Nil
  then show ?case by simp
next
  case (Cons ep eps)
  show ?case
  proof (cases "Healthy ep")
    case True
    then show ?thesis using Cons.prems by simp
  next
    case False
    then have "failover_loop eps (Suc k) = Some i" using Cons.prems by simp
    then have "Suc k \<le> i \<and> i < Suc k + length eps" by (rule Cons.IH)
    then show ?thesis by simp
  qed
qed

lemma selectRoundRobin_in_pool:
  assumes "endpoints c \<noteq> []"
  shows "\<exists>i c'. selectRoundRobin c = (Some i, c') \<and> i < length (endpoints c)
           \<and> endpoints c' = endpoints c"
proof -
  obtain r counter where loop:
    "roundRobin_loop (endpoints c) (length (endpoints c)) (currentIndex c) = (r, counter)"
    by (cases "roundRobin_loop (endpoints c) (length (endpoints c)) (currentIndex c)") auto
  obtain i where "r = Some i" "i < length (endpoints c)"
    using roundRobin_loop_in_pool [OF assms, of "length (endpoints c)" "currentIndex c"] loop
    by auto
  then show ?thesis using loop by (simp add: selectRoundRobin_def)
qed

lemma selectFailover_in_pool:
  assumes "endpoints c \<noteq> []"
  shows "\<exists>i c'. selectFailover c = (Some i, c') \<and> i < length (endpoints c)
           \<and> endpoints c' = endpoints c"
proof (cases "failover_loop (endpoints c) 0")
  case None
  then show ?thesis using assms by (simp add: selectFailover_def)
next
  case (Some i)
  then have "i < length (endpoints c)" using failover_loop_in_pool [of "endpoints c" 0 i] by simp
  then show ?thesis using Some by (simp add: selectFailover_def)
qed

lemma selectEndpoint_in_pool:
  assumes "endpoints c \<noteq> []"
  shows "\<exists>i c'. selectEndpoint c = (Some i, c') \<and> i < length (endpoints c)
           \<and> endpoints c' = endpoints c"
  using selectRoundRobin_in_pool [OF assms] selectFailover_in_pool [OF assms]
  by (simp add: selectEndpoint_def)

lemma selectEndpoint_empty_pool:
  assumes "endpoints c = []"
  shows "fst (selectEndpoint c) = None"
  using assms by (simp add: selectEndpoint_def selectRoundRobin_def selectFailover_def)

lemma Resolve_loop_finds_endpoint:
  assumes "endpoints c \<noteq> []"
  shows "fst (Resolve_loop doRequest ctx_Done body retries c attempt lastErr) \<noteq> Inl NoHealthyEndpoints"
  using assms
proof (induction doRequest ctx_Done body retries c attempt lastErr rule: Resolve_loop.induct)
  case (1 doRequest ctx_Done body retries c attempt lastErr)
  show ?case
  proof (cases "attempt < retries")
    case False
    then show ?thesis by (simp add: Resolve_loop.simps [of _ _ _ retries c attempt])
  next
    case True
    obtain i c1 where sel: "selectEndpoint c = (Some i, c1)" "i < length (endpoints c)"
      "endpoints c1 = endpoints c"
      using selectEndpoint_in_pool [OF "1.prems"] by blast
    show ?thesis
    proof (cases "doRequest (nat attempt) (endpoints c1 ! i) body")
      case (Inr resp)
      then show ?thesis
        using True sel by (simp add: Resolve_loop.simps [of _ _ _ retries c attempt])
    next
      case (Inl err)
      let ?c2 = "c1\<lparr>endpoints := (endpoints c1)[i := (endpoints c1 ! i)\<lparr>Healthy := False\<rparr>]\<rparr>"
      show ?thesis
      proof (cases "attempt < retries - 1 \<and> ctx_Done (nat attempt)")
        case True
        then show ?thesis
          using \<open>attempt < retries\<close> sel Inl
          by (simp add: Resolve_loop.simps [of _ _ _ retries c attempt] Let_def)
      next
        case False
        have "endpoints ?c2 \<noteq> []" using sel(3) "1.prems" by simp
        then have "fst (Resolve_loop doRequest ctx_Done body retries ?c2 (attempt + 1) (Some err))
                \<noteq> Inl NoHealthyEndpoints"
          using True sel(1) Inl False by (intro "1.IH") auto
        then show ?thesis
          using True sel Inl False
          by (simp add: Resolve_loop.simps [of _ _ _ retries c attempt] Let_def)
      qed
    qed
  qed
qed

text \<open>
  C9: for a client whose pool is non-empty, selection under \<open>round_robin\<close>, under
  \<open>failover\<close> and through \<open>selectEndpoint\<close> returns an endpoint of the pool, never nil,
  whatever the health flags; so \<open>Resolve\<close> does not fail with "no healthy endpoints
  available". With an empty pool selection returns nil.
\<close>

theorem selection_never_nil:
  "(endpoints c \<noteq> [] \<longrightarrow>
      (\<exists>i c'. selectRoundRobin c = (Some i, c') \<and> i < length (endpoints c))
    \<and> (\<exists>i c'. selectFailover c = (Some i, c') \<and> i < length (endpoints c))
    \<and> (\<exists>i c'. selectEndpoint c = (Some i, c') \<and> i < length (endpoints c))
    \<and> fst (Resolve Marshal_request Marshal_encrypted rand_Reader doRequest ctx_Done c domain recordType)
        \<noteq> Inl NoHealthyEndpoints)
   \<and> (endpoints c = [] \<longrightarrow> fst (selectEndpoint c) = None)"
proof (intro conjI impI)
  assume pool: "endpoints c \<noteq> []"
  show "\<exists>i c'. selectRoundRobin c = (Some i, c') \<and> i < length (endpoints c)"
    using selectRoundRobin_in_pool [OF pool] by blast
  show "\<exists>i c'. selectFailover c = (Some i, c') \<and> i < length (endpoints c)"
    using selectFailover_in_pool [OF pool] by blast
  show "\<exists>i c'. selectEndpoint c = (Some i, c') \<and> i < length (endpoints c)"
    using selectEndpoint_in_pool [OF pool] by blast
  show "fst (Resolve Marshal_request Marshal_encrypted rand_Reader doRequest ctx_Done c domain recordType)
        \<noteq> Inl NoHealthyEndpoints"
    by (simp add: Resolve_def Resolve_loop_finds_endpoint [OF pool] split: option.splits sum.splits)
next
  assume "endpoints c = []"
  then show "fst (selectEndpoint c) = None" by (rule selectEndpoint_empty_pool)
qed

theorem selection_never_nil_witness:
  "endpoints demo_client_down \<noteq> []
   \<and> map Healthy (endpoints demo_client_down) = [False, False]
   \<and> fst (selectRoundRobin demo_client_down) = Some 0
   \<and> fst (selectFailover demo_client_down) = Some 0
   \<and> fst (Resolve (\<lambda>d t. []) (\<lambda>e. []) [] (\<lambda>n ep b. Inl ''503'' :: string + unit) (\<lambda>n. False)
            demo_client_down ''example.com'' ''A'') \<noteq> Inl NoHealthyEndpoints
   \<and> endpoints (demo_client\<lparr>endpoints := []\<rparr>) = []
   \<and> fst (selectEndpoint (demo_client\<lparr>endpoints := []\<rparr>)) = None"
proof -
  have pool: "endpoints demo_client_down \<noteq> []"
    and down: "map Healthy (endpoints demo_client_down) = [False, False]"
    by (simp_all add: demo_client_down_def demo_endpoint_def)
  have rr: "fst (selectRoundRobin demo_client_down) = Some 0"
    by (simp add: selectRoundRobin_def demo_client_down_def demo_client_def demo_endpoint_def)
  have fo: "fst (selectFailover demo_client_down) = Some 0"
    by (simp add: selectFailover_def demo_client_down_def demo_client_def demo_endpoint_def)
  show ?thesis
    using selection_never_nil [of demo_client_down "\<lambda>d t. []" "\<lambda>e. []" "[]"
        "\<lambda>n ep b. Inl ''503'' :: string + unit" "\<lambda>n. False" "''example.com''" "''A''"]
      selection_never_nil [of "demo_client\<lparr>endpoints := []\<rparr>" "\<lambda>d t. []" "\<lambda>e. []" "[]"
        "\<lambda>n ep b. Inl ''503'' :: string + unit" "\<lambda>n. False" "''example.com''" "''A''"]
      pool down rr fo
    by simp
qed

subsection \<open>Cache keys\<close>

text \<open>
  C3, as the claim states it, fails: two questions whose owner names differ only in
  letter case get different local keys, and for one and the same question the local
  key keeps the trailing dot that the remote key has lost.
\<close>

theorem Key_is_case_sensitive:
  "Key TypeToString_served \<lparr>Name = ''Example.COM.'', Qtype = 1, Qclass = 1\<rparr>
     \<noteq> Key TypeToString_served \<lparr>Name = ''example.com.'', Qtype = 1, Qclass = 1\<rparr>
   \<and> Key TypeToString_served \<lparr>Name = ''example.com.'', Qtype = 1, Qclass = 1\<rparr> = ''example.com.:A''
   \<and> cacheKey ''example.com.'' ''A'' = ''example.com:A''
   \<and> cacheKey ''Example.COM.'' ''A'' = ''Example.COM:A''"
  by (simp add: Key_def map_index_def TypeToString_served_def cacheKey_def TrimSuffix_def HasSuffix_def)

lemma TrimSuffix_dot:
  "TrimSuffix (n @ ''.'') ''.'' = n"
  by (simp add: TrimSuffix_def HasSuffix_def)

lemma TrimSuffix_no_dot:
  assumes "n = [] \<or> last n \<noteq> CHR ''.''"
  shows "TrimSuffix n ''.'' = n"
proof (cases n rule: rev_cases)
  case Nil
  then show ?thesis by (simp add: TrimSuffix_def HasSuffix_def)
next
  case (snoc ys y)
  then show ?thesis using assms by (simp add: TrimSuffix_def HasSuffix_def)
qed

lemma first_separator_splits:
  assumes "a \<notin> set xs" "a \<notin> set xs'"
  shows "xs @ a # ys = xs' @ a # ys' \<longleftrightarrow> xs = xs' \<and> ys = ys'"
  using assms
proof (induction xs arbitrary: xs')
  case Nil
  then show ?case by (cases xs') auto
next
  case (Cons x xs)
  then show ?case by (cases xs') auto
qed

lemma name_colon_type_eq:
  assumes "CHR '':'' \<notin> set t1" "CHR '':'' \<notin> set t2"
  shows "n1 @ '':'' @ t1 = n2 @ '':'' @ t2 \<longleftrightarrow> n1 = n2 \<and> t1 = t2"
proof -
  have "n1 @ '':'' @ t1 = n2 @ '':'' @ t2 \<longleftrightarrow> rev (n1 @ '':'' @ t1) = rev (n2 @ '':'' @ t2)"
    by (simp only: rev_is_rev_conv)
  also have "\<dots> \<longleftrightarrow> rev t1 @ CHR '':'' # rev n1 = rev t2 @ CHR '':'' # rev n2"
    by simp
  also have "\<dots> \<longleftrightarrow> rev t1 = rev t2 \<and> rev n1 = rev n2"
    using assms by (intro first_separator_splits) simp_all
  finally show ?thesis by auto
qed

text \<open>
  C3, amended: the local cache key is the owner name as it stands in the question,
  letter case and trailing dot kept, followed by \<open>:\<close> and the mnemonic of the record
  type; where no mnemonic contains \<open>:\<close>, two questions have the same key exactly when
  their owner names are equal character by character and their mnemonics are equal.
  The remote key is the domain with one trailing dot removed, letter case kept,
  followed by \<open>:\<close> and the record type.
\<close>

theorem Key_exact_on_name_and_type:
  "Key T q = Name q @ '':'' @ map_index T (Qtype q)
   \<and> (CHR '':'' \<notin> set (map_index T (Qtype q1)) \<and> CHR '':'' \<notin> set (map_index T (Qtype q2)) \<longrightarrow>
        (Key T q1 = Key T q2 \<longleftrightarrow>
           Name q1 = Name q2 \<and> map_index T (Qtype q1) = map_index T (Qtype q2)))
   \<and> cacheKey (n @ ''.'') t = n @ '':'' @ t
   \<and> (d = [] \<or> last d \<noteq> CHR ''.'' \<longrightarrow> cacheKey d t = d @ '':'' @ t)"
  using name_colon_type_eq [of "map_index T (Qtype q1)" "map_index T (Qtype q2)" "Name q1" "Name q2"]
    TrimSuffix_dot [of n] TrimSuffix_no_dot [of d]
  by (auto simp: Key_def cacheKey_def)

theorem Key_exact_on_name_and_type_witness:
  "CHR '':'' \<notin> set (map_index TypeToString_served 1)
   \<and> CHR '':'' \<notin> set (map_index TypeToString_served 28)
   \<and> Key TypeToString_served \<lparr>Name = ''example.com.'', Qtype = 1, Qclass = 1\<rparr>
       \<noteq> Key TypeToString_served \<lparr>Name = ''example.com.'', Qtype = 28, Qclass = 1\<rparr>
   \<and> last ''example.com'' \<noteq> CHR ''.''
   \<and> cacheKey ''example.com'' ''A'' = ''example.com:A''"
  using Key_exact_on_name_and_type [of TypeToString_served
      "\<lparr>Name = ''example.com.'', Qtype = 1, Qclass = 1\<rparr>"
      "\<lparr>Name = ''example.com.'', Qtype = 1, Qclass = 1\<rparr>"
      "\<lparr>Name = ''example.com.'', Qtype = 28, Qclass = 1\<rparr>"
      "''example.com''" "''A''" "''example.com''"]
  by (simp add: map_index_def TypeToString_served_def Key_def)

subsection \<open>MX records across the two tiers\<close>

text \<open>
  C8: for an upstream that reports preference 20 and host \<open>mail.example.com\<close>, the
  remote resolver emits the value \<open>20 mail.example.com.\<close>; the local record builder,
  given that record, produces an MX record with preference 10 whose exchange is the
  whole value \<open>20 mail.example.com.\<close>, not the host \<open>mail.example.com.\<close> the claim
  names.
\<close>

theorem MX_value_becomes_exchange:
  "resolveWithUpstream demo_upstream ''example.com'' ''MX''
     = Inr \<lparr>Domain = ''example.com'', Records = [demo_MX_record], Cached = False\<rparr>
   \<and> createRR ParseIP To4 To16 demo_MX_record ''example.com.''
     = Inr (RR_MX \<lparr>Hdr_Name = ''example.com.'', Rrtype = 15, Class = 1, Ttl = 300\<rparr> 10
                  ''20 mail.example.com.'')"
proof -
  have "decimal 20 = ''20''"
    by (simp add: decimal.simps [of 20] decimal.simps [of 2])
  then show ?thesis
    by (simp add: resolveWithUpstream_def demo_upstream_def demo_MX_record_def createRR_def Fqdn_def)
qed

subsection \<open>Health probes\<close>

text \<open>
  With the suffix in place the probe goes to the base URL followed by \<open>/health\<close>, and
  the endpoint's flag becomes whether the status is 200; a transport error clears it.
\<close>

lemma checkEndpoint_with_suffix:
  assumes "URL ep = base @ ''/api/v1/resolve''" "NewRequest (base @ ''/health'')"
  shows "checkEndpoint NewRequest Do ep =
           Inr (ep\<lparr>Healthy := (case Do (base @ ''/health'') of None \<Rightarrow> False
                                | Some StatusCode \<Rightarrow> StatusCode = 200)\<rparr>)"
  using assms by (simp add: checkEndpoint_def health_URL_def split: option.splits)

text \<open>
  C6: the health URL is the endpoint URL without its last fifteen bytes, whatever they
  are, followed by \<open>/health\<close>. For an endpoint URL that does not end in
  \<open>/api/v1/resolve\<close> the probe therefore does not target the URL as given: the alias
  URL \<open>https://remote.example/api/v1/data\<close> is probed at
  \<open>https://remote.exam/health\<close>, and a URL shorter than fifteen bytes makes the slice
  expression panic.
\<close>

theorem health_URL_without_suffix:
  "health_URL ''https://remote.example/api/v1/data'' = Inr ''https://remote.exam/health''
   \<and> health_URL ''http://h:8443'' = Inl SliceBoundsOutOfRange
   \<and> checkEndpoint NewRequest Do
        \<lparr>URL = ''http://h:8443'', APIKey = ''key'', Weight = 1, Healthy = True\<rparr>
       = Inl SliceBoundsOutOfRange"
  by (simp add: health_URL_def checkEndpoint_def)

subsection \<open>Envelope round trip\<close>

text \<open>Bit-level facts about the four sextets of a base64 quantum.\<close>

lemma sextet_masks: "(63::8 word) = mask 6" "(3::8 word) = mask 2" "(15::8 word) = mask 4"
  by (simp_all add: mask_eq_exp_minus_1)

lemma Suc_Suc_diff: "2 \<le> n \<Longrightarrow> Suc (Suc (n - 2)) = n"
  by simp

lemma high_bits_2: "bit (a::8 word) n \<Longrightarrow> \<not> bit a (Suc (Suc (n - 2))) \<Longrightarrow> n < 2"
  by (cases "2 \<le> n") (simp_all add: Suc_Suc_diff)

lemma high_bits_4: "bit (b::8 word) n \<Longrightarrow> \<not> bit b (4 + (n - 4)) \<Longrightarrow> n < 4"
  by (cases "4 \<le> n") simp_all

lemma first_byte:
  fixes a b :: "8 word"
  shows "push_bit 2 (drop_bit 2 a AND 63) OR drop_bit 4 ((push_bit 4 (a AND 3) OR drop_bit 4 b) AND 63) = a"
  unfolding sextet_masks
  by (rule bit_word_eqI) (auto simp: bit_simps Suc_Suc_diff dest: high_bits_2 high_bits_4)

lemma first_byte_padded:
  fixes a :: "8 word"
  shows "push_bit 2 (drop_bit 2 a AND 63) OR drop_bit 4 (push_bit 4 (a AND 3) AND 63) = a"
  unfolding sextet_masks
  by (rule bit_word_eqI) (auto simp: bit_simps Suc_Suc_diff dest: high_bits_2 high_bits_4)

lemma second_byte:
  fixes a b c :: "8 word"
  shows "push_bit 4 ((push_bit 4 (a AND 3) OR drop_bit 4 b) AND 63)
         OR drop_bit 2 ((push_bit 2 (b AND 15) OR drop_bit 6 c) AND 63) = b"
  unfolding sextet_masks
  by (rule bit_word_eqI) (auto simp: bit_simps Suc_Suc_diff dest: high_bits_2 high_bits_4)

lemma second_byte_padded:
  fixes a b :: "8 word"
  shows "push_bit 4 ((push_bit 4 (a AND 3) OR drop_bit 4 b) AND 63)
         OR drop_bit 2 (push_bit 2 (b AND 15) AND 63) = b"
  unfolding sextet_masks
  by (rule bit_word_eqI) (auto simp: bit_simps Suc_Suc_diff dest: high_bits_2 high_bits_4)

lemma third_byte:
  fixes b c :: "8 word"
  shows "push_bit 6 ((push_bit 2 (b AND 15) OR drop_bit 6 c) AND 63) OR ((c AND 63) AND 63) = c"
  unfolding sextet_masks
  by (rule bit_word_eqI) (auto simp: bit_simps Suc_Suc_diff dest: high_bits_2 high_bits_4)

text \<open>The alphabet: 64 distinct characters, none of them the padding or a line break.\<close>

lemma length_encodeStd: "length encodeStd = 64"
  by (simp add: encodeStd_def)

lemma distinct_encodeStd: "distinct encodeStd"
  by (simp add: encodeStd_def)

lemma encodeStd_plain:
  "CHR ''='' \<notin> set encodeStd" "CHR 0x0D \<notin> set encodeStd" "CHR 0x0A \<notin> set encodeStd"
  by (simp_all add: encodeStd_def)

lemma sextet_bound: "unat ((v::8 word) AND 63) < 64"
proof -
  have "unat (v AND 63) \<le> unat (63 :: 8 word)"
    by (rule word_and_le1 [THEN word_le_nat_alt [THEN iffD1]])
  then show ?thesis by simp
qed

lemma enc64_in_alphabet: "enc64 v \<in> set encodeStd"
  using sextet_bound [of v] by (simp add: enc64_def length_encodeStd)

lemma enc64_plain: "enc64 v \<noteq> CHR ''=''" "enc64 v \<noteq> CHR 0x0D" "enc64 v \<noteq> CHR 0x0A"
  using enc64_in_alphabet [of v] encodeStd_plain by metis+

lemma decodeMap_enc64: "decodeMap (enc64 v) = Some (v AND 63)"
proof -
  let ?i = "unat (v AND 63)"
  let ?ys = "map of_nat [0..<64] :: 8 word list"
  have i: "?i < 64" by (rule sextet_bound)
  have "map_of (zip encodeStd ?ys) (encodeStd ! ?i) = Some (?ys ! ?i)"
    using i by (intro map_of_zip_nth) (simp_all add: length_encodeStd distinct_encodeStd)
  moreover have "?ys ! ?i = v AND 63" using i by simp
  ultimately show ?thesis by (simp add: decodeMap_def enc64_def)
qed

text \<open>Decoding one quantum whose characters are the images of the sextets \<open>s1 \<dots> s4\<close>.\<close>

lemma decode_full_quantum:
  "decode_quantums (enc64 s1 # enc64 s2 # enc64 s3 # enc64 s4 # rest) =
     (case decode_quantums rest of
        None \<Rightarrow> None
      | Some bs \<Rightarrow> Some ((push_bit 2 (s1 AND 63) OR drop_bit 4 (s2 AND 63)) #
                         (push_bit 4 (s2 AND 63) OR drop_bit 2 (s3 AND 63)) #
                         (push_bit 6 (s3 AND 63) OR (s4 AND 63)) # bs))"
  by (simp add: decodeMap_enc64 enc64_plain)

lemma decode_quantum_one_pad:
  "decode_quantums [enc64 s1, enc64 s2, enc64 s3, CHR ''=''] =
     Some [push_bit 2 (s1 AND 63) OR drop_bit 4 (s2 AND 63),
           push_bit 4 (s2 AND 63) OR drop_bit 2 (s3 AND 63)]"
  by (simp add: decodeMap_enc64 enc64_plain)

lemma decode_quantum_two_pads:
  "decode_quantums [enc64 s1, enc64 s2, CHR ''='', CHR ''=''] =
     Some [push_bit 2 (s1 AND 63) OR drop_bit 4 (s2 AND 63)]"
  by (simp add: decodeMap_enc64 enc64_plain)

lemma decode_quantums_EncodeToString: "decode_quantums (EncodeToString bs) = Some bs"
proof (induction bs rule: EncodeToString.induct)
  case 1
  then show ?case by simp
next
  case (2 a)
  show ?case
    by (simp only: EncodeToString.simps decode_quantum_two_pads first_byte_padded)
next
  case (3 a b)
  show ?case
    by (simp only: EncodeToString.simps decode_quantum_one_pad first_byte second_byte_padded)
next
  case (4 a b c rest)
  show ?case
    by (simp only: EncodeToString.simps decode_full_quantum "4.IH" option.case
        first_byte second_byte third_byte)
qed

lemma EncodeToString_no_line_breaks:
  "filter (\<lambda>c. c \<noteq> CHR 0x0D \<and> c \<noteq> CHR 0x0A) (EncodeToString bs) = EncodeToString bs"
  by (induction bs rule: EncodeToString.induct) (simp_all add: enc64_plain)

lemma DecodeString_EncodeToString: "DecodeString (EncodeToString bs) = Some bs"
  by (simp add: DecodeString_def EncodeToString_no_line_breaks decode_quantums_EncodeToString)

text \<open>A string of \<open>2 * n\<close> hex digits decodes to \<open>n\<close> bytes.\<close>

lemma hex_DecodeString_digits:
  assumes "length s = 2 * n" "\<forall>ch \<in> set s. fromHexChar ch \<noteq> None"
  shows "\<exists>key. hex_DecodeString s = Some key \<and> length key = n"
  using assms
proof (induction s arbitrary: n rule: hex_DecodeString.induct)
  case 1
  then show ?case by simp
next
  case (2 a)
  then show ?case by simp
next
  case (3 a b rest)
  obtain m where n: "n = Suc m" using "3.prems"(1) by (cases n) auto
  obtain x y where xy: "fromHexChar a = Some x" "fromHexChar b = Some y"
    using "3.prems"(2) by auto
  have "length rest = 2 * m" using "3.prems"(1) n by simp
  moreover have "\<forall>ch \<in> set rest. fromHexChar ch \<noteq> None" using "3.prems"(2) by simp
  ultimately obtain key where "hex_DecodeString rest = Some key" "length key = m"
    using "3.IH" xy by blast
  then show ?case using xy n by simp
qed


lemma toy_AEAD_contract: "AEAD_contract toy_AEAD"
  by (simp add: AEAD_contract_def toy_AEAD_def o_def)

text \<open>
  C1: for every byte string \<open>m\<close> and every key of 64 hex digits, given that the library
  builds from the 32 key bytes an AEAD that keeps the interface's contract with a
  12-byte nonce and a 16-byte tag, and that the random source delivers the nonce: the
  cipher is built, \<open>Encrypt\<close> returns an envelope that is the base64 text of the nonce
  followed by \<open>length m + 16\<close> sealed bytes, and \<open>Decrypt\<close> of that envelope returns
  exactly \<open>m\<close>.
\<close>

theorem envelope_round_trip:
  assumes digits: "length hexKey = 64" "\<forall>ch \<in> set hexKey. fromHexChar ch \<noteq> None"
    and lib: "\<forall>key. length key = 32 \<longrightarrow>
                (\<exists>g. aes_NewGCM key = Some g \<and> AEAD_contract g \<and> NonceSize g = 12 \<and> Overhead g = 16)"
    and entropy: "12 \<le> length rand_Reader"
  shows "\<exists>c envelope sealed.
           NewCipher aes_NewGCM hexKey = Inr c
           \<and> Encrypt c rand_Reader m = Inr envelope
           \<and> DecodeString envelope = Some (take 12 rand_Reader @ sealed)
           \<and> length sealed = length m + 16
           \<and> Decrypt c envelope = Inr m"
proof -
  obtain key where key: "hex_DecodeString hexKey = Some key" "length key = 32"
    using hex_DecodeString_digits [of hexKey 32] digits by auto
  obtain g where g: "aes_NewGCM key = Some g" "AEAD_contract g" "NonceSize g = 12" "Overhead g = 16"
    using lib key(2) by blast
  let ?c = "\<lparr>gcm = g\<rparr>"
  let ?nonce = "take 12 rand_Reader"
  have new: "NewCipher aes_NewGCM hexKey = Inr ?c"
    using key g(1) by (simp add: NewCipher_def)
  have nonce: "length ?nonce = NonceSize g" using entropy g(3) by simp
  obtain sealed where sealed: "Seal g ?nonce ?nonce m [] = ?nonce @ sealed"
    "length sealed = length m + Overhead g" "Open g [] ?nonce sealed [] = Some m"
    using g(2) nonce unfolding AEAD_contract_def by blast
  let ?envelope = "EncodeToString (?nonce @ sealed)"
  have enc: "Encrypt ?c rand_Reader m = Inr ?envelope"
    using entropy g(3) sealed(1) by (simp add: Encrypt_def ReadFull_def)
  have dec64: "DecodeString ?envelope = Some (?nonce @ sealed)"
    by (rule DecodeString_EncodeToString)
  have "Decrypt ?c ?envelope = Inr m"
    using nonce sealed(3) g(3) entropy by (simp add: Decrypt_def dec64)
  then show ?thesis using new enc dec64 sealed(2) g(4) by auto
qed

lemma demo_key_bytes:
  "hex_DecodeString demo_hexKey =
     Some [0, 1, 2, 3, 4, 5, 6, 7, 8, 9, 10, 11, 12, 13, 14, 15, 16, 17, 18, 19, 20,
           21, 22, 23, 24, 25, 26, 27, 28, 29, 30, 31]"
  unfolding demo_hexKey_def by code_simp

lemma demo_envelope:
  "Encrypt \<lparr>gcm = toy_AEAD\<rparr> demo_rand demo_plaintext
     = Inr ''BwECAwQFBgcICQoLb3AHBwcHBwcHBwcHBwcHBwcH''"
  by code_simp

theorem envelope_round_trip_witness:
  "length demo_hexKey = 64
   \<and> 12 \<le> length demo_rand
   \<and> NewCipher (\<lambda>key. Some toy_AEAD) demo_hexKey = Inr \<lparr>gcm = toy_AEAD\<rparr>
   \<and> Encrypt \<lparr>gcm = toy_AEAD\<rparr> demo_rand demo_plaintext
       = Inr ''BwECAwQFBgcICQoLb3AHBwcHBwcHBwcHBwcHBwcH''
   \<and> Decrypt \<lparr>gcm = toy_AEAD\<rparr> ''BwECAwQFBgcICQoLb3AHBwcHBwcHBwcHBwcHBwcH'' = Inr demo_plaintext"
proof -
  have len: "length demo_hexKey = 64"
    by (simp add: demo_hexKey_def)
  have digits: "\<forall>ch \<in> set demo_hexKey. fromHexChar ch \<noteq> None"
    by (simp add: demo_hexKey_def fromHexChar_def)
  have lib: "\<forall>key. length key = 32 \<longrightarrow>
      (\<exists>g. (\<lambda>key. Some toy_AEAD) key = Some g \<and> AEAD_contract g \<and> NonceSize g = 12 \<and> Overhead g = 16)"
    using toy_AEAD_contract by (simp add: toy_AEAD_def)
  have entropy: "12 \<le> length demo_rand"
    by (simp add: demo_rand_def)
  have new: "NewCipher (\<lambda>key. Some toy_AEAD) demo_hexKey = Inr \<lparr>gcm = toy_AEAD\<rparr>"
    by (simp add: NewCipher_def demo_key_bytes)
  from envelope_round_trip [OF len digits lib entropy, of demo_plaintext]
  obtain c envelope where
    "NewCipher (\<lambda>key. Some toy_AEAD) demo_hexKey = Inr c"
    "Encrypt c demo_rand demo_plaintext = Inr envelope"
    "Decrypt c envelope = Inr demo_plaintext"
    by blast
  then have "Decrypt \<lparr>gcm = toy_AEAD\<rparr> ''BwECAwQFBgcICQoLb3AHBwcHBwcHBwcHBwcHBwcH'' = Inr demo_plaintext"
    using new demo_envelope by simp
  then show ?thesis using len entropy new demo_envelope by simp
qed

end
